theory Spec2Isabelle
  imports Complex_Main
begin

section \<open>Python values used by obiGO.py\<close>

text \<open>
  Exceptions are values. A call that raises returns \<open>Err e\<close>; where the state a call
  leaves behind matters, the function returns the state beside the result, because a
  Python exception does not undo the assignments made before it.
\<close>

datatype py_error = KeyError | ValueError | AttributeError | TypeError | NameError | RuntimeError

datatype 'a res = Ok 'a | Err py_error

text \<open>
  Unordered containers (\<open>set\<close>, \<open>dict\<close> where it is iterated) are duplicate-free lists.
  The order of the list stands for the iteration order, which Python leaves unspecified;
  every statement about such a container goes through \<open>set\<close> or \<open>map_of\<close>.
\<close>

definition set_add :: "'a \<Rightarrow> 'a list \<Rightarrow> 'a list" where
  "set_add x xs = (if x \<in> set xs then xs else xs @ [x])"

definition set_update :: "'a list \<Rightarrow> 'a list \<Rightarrow> 'a list" where
  "set_update xs ys = foldl (\<lambda>acc y. set_add y acc) xs ys"

definition dict_set :: "'k \<Rightarrow> 'v \<Rightarrow> ('k \<times> 'v) list \<Rightarrow> ('k \<times> 'v) list" where
  "dict_set k v d =
     (if k \<in> fst ` set d then map (\<lambda>(k', v'). if k' = k then (k', v) else (k', v')) d
      else d @ [(k, v)])"

subsection \<open>Strings\<close>

definition nl :: char where
  "nl = CHR 0x0A"

definition isspace :: "char \<Rightarrow> bool" where
  "isspace c = (c \<in> set [CHR '' '', CHR 0x09, CHR 0x0A, CHR 0x0B, CHR 0x0C, CHR 0x0D])"

text \<open>\<open>s.split(c)\<close> for a one-character separator: every part, empty ones included.\<close>

fun split_all :: "char \<Rightarrow> string \<Rightarrow> string list" where
  "split_all c [] = [[]]"
| "split_all c (x # xs) =
     (if x = c then [] # split_all c xs
      else (case split_all c xs of p # ps \<Rightarrow> (x # p) # ps | [] \<Rightarrow> [[x]]))"

text \<open>\<open>s.split(c, 1)\<close>: at most one cut, at the first occurrence of \<open>c\<close>.\<close>

definition split_first :: "char \<Rightarrow> string \<Rightarrow> string list" where
  "split_first c s =
     (if c \<in> set s then [takeWhile (\<lambda>x. x \<noteq> c) s, tl (dropWhile (\<lambda>x. x \<noteq> c) s)] else [s])"

definition strip_chars :: "(char \<Rightarrow> bool) \<Rightarrow> string \<Rightarrow> string" where
  "strip_chars P s = rev (dropWhile P (rev (dropWhile P s)))"

text \<open>\<open>s.strip()\<close> and \<open>s.strip("}")\<close>.\<close>

definition strip :: "string \<Rightarrow> string" where
  "strip s = strip_chars isspace s"

definition strip_brace :: "string \<Rightarrow> string" where
  "strip_brace s = strip_chars (\<lambda>c. c = CHR ''}'') s"

text \<open>\<open>s.split(None, 1)\<close>: cut at the first run of whitespace, leading whitespace dropped.\<close>

definition split_ws1 :: "string \<Rightarrow> string list" where
  "split_ws1 s =
     (let s1 = dropWhile isspace s in
      if s1 = [] then []
      else (let tok = takeWhile (\<lambda>c. \<not> isspace c) s1;
                rest = dropWhile isspace (dropWhile (\<lambda>c. \<not> isspace c) s1)
            in if rest = [] then [tok] else [tok, rest]))"

definition startswith :: "string \<Rightarrow> string \<Rightarrow> bool" where
  "startswith s p = (take (length p) s = p)"

section \<open>OBOObject\<close>

text \<open>
  A tag of \<open>values\<close> holds a string, or a list of strings when the tag is in
  \<open>multipleTagSet\<close>. That set comes from the module \<open>go\<close>, which is not part of the
  sources at hand; it is a parameter \<open>mts\<close> of the parser.
\<close>

datatype tagval = Single string | Multi "string list"

record OBOObject =
  obj_lines :: "(string \<times> string \<times> string \<times> string) list"
  obj_values :: "string \<rightharpoonup> tagval"
  related :: "string list list"
  relatedTo :: "(string \<times> string) list"

definition OBOObject_new :: OBOObject where
  "OBOObject_new = \<lparr>obj_lines = [], obj_values = Map.empty, related = [], relatedTo = []\<rparr>"

text \<open>
  One iteration of the loop of \<open>ParseStanza\<close>. \<open>rest.split("!")\<close> has no limit, so the
  unpacking \<open>rest, comment = ...\<close> raises ValueError unless there is exactly one \<open>!\<close>.
\<close>

definition parse_line :: "string set \<Rightarrow> OBOObject \<Rightarrow> string \<Rightarrow> OBOObject res" where
  "parse_line mts obj line =
     (if CHR '':'' \<notin> set line then Ok obj
      else
        (case split_first (CHR '':'') line of
           [tag, rest0] \<Rightarrow>
             (case (if CHR ''!'' \<in> set rest0
                    then (case split_all (CHR ''!'') rest0 of
                            [r, c] \<Rightarrow> Ok (r, c)
                          | _ \<Rightarrow> Err ValueError)
                    else Ok (rest0, [])) of
                Err e \<Rightarrow> Err e
              | Ok (rest, comment) \<Rightarrow>
                 (let (value0, modifiers) =
                        (if CHR ''{'' \<in> set rest
                         then (case split_first (CHR ''{'') rest of
                                 [v, m] \<Rightarrow> (v, strip_brace m)
                               | _ \<Rightarrow> (rest, []))
                         else (rest, []));
                      value = strip value0;
                      obj1 = obj\<lparr>obj_lines := obj_lines obj @ [(tag, value, modifiers, comment)]\<rparr>
                  in if tag \<in> mts
                     then (case obj_values obj1 tag of
                             None \<Rightarrow> Ok (obj1\<lparr>obj_values := (obj_values obj1)(tag \<mapsto> Multi [value])\<rparr>)
                           | Some (Multi vs) \<Rightarrow>
                               Ok (obj1\<lparr>obj_values := (obj_values obj1)(tag \<mapsto> Multi (vs @ [value]))\<rparr>)
                           | Some (Single s) \<Rightarrow> Err TypeError)
                     else Ok (obj1\<lparr>obj_values := (obj_values obj1)(tag \<mapsto> Single value)\<rparr>)))
         | _ \<Rightarrow> Err ValueError))"

fun parse_lines :: "string set \<Rightarrow> OBOObject \<Rightarrow> string list \<Rightarrow> OBOObject res" where
  "parse_lines mts obj [] = Ok obj"
| "parse_lines mts obj (l # ls) =
     (case parse_line mts obj l of Err e \<Rightarrow> Err e | Ok obj' \<Rightarrow> parse_lines mts obj' ls)"

text \<open>
  \<open>self.values.get(tag, [])\<close> iterated: a list gives its elements, a string gives its
  characters.
\<close>

definition iter_tag :: "OBOObject \<Rightarrow> string \<Rightarrow> string list" where
  "iter_tag obj tag =
     (case obj_values obj tag of
        None \<Rightarrow> []
      | Some (Multi vs) \<Rightarrow> vs
      | Some (Single s) \<Rightarrow> map (\<lambda>c. [c]) s)"

definition GetRelatedObjects :: "OBOObject \<Rightarrow> string list list" where
  "GetRelatedObjects obj =
     map (\<lambda>i. [''is_a'', i]) (iter_tag obj ''is_a'')
     @ map split_ws1 (iter_tag obj ''relationship'')"

definition ParseStanza :: "string set \<Rightarrow> OBOObject \<Rightarrow> string \<Rightarrow> OBOObject res" where
  "ParseStanza mts obj stanza =
     (case parse_lines mts obj (split_all nl stanza) of
        Err e \<Rightarrow> Err e
      | Ok obj' \<Rightarrow> Ok (obj'\<lparr>related := remdups (GetRelatedObjects obj')\<rparr>))"

text \<open>\<open>obj.id\<close>: \<open>__getattr__\<close> reads \<open>values["id"]\<close> and turns KeyError into AttributeError.\<close>

definition get_id :: "OBOObject \<Rightarrow> tagval res" where
  "get_id obj = (case obj_values obj ''id'' of None \<Rightarrow> Err AttributeError | Some v \<Rightarrow> Ok v)"


section \<open>Ontology\<close>

text \<open>
  The three dictionaries of an \<open>Ontology\<close>. \<open>terms\<close> is iterated by \<open>ParseFile\<close>, so it
  is kept as a list of items with distinct keys.
\<close>

record Ontology =
  terms :: "(string \<times> OBOObject) list"
  typedefs :: "(string \<times> OBOObject) list"
  instances :: "(string \<times> OBOObject) list"

definition Ontology_new :: Ontology where
  "Ontology_new = \<lparr>terms = [], typedefs = [], instances = []\<rparr>"

definition join_nl :: "string list \<Rightarrow> string" where
  "join_nl ls = (case ls of [] \<Rightarrow> [] | l # rest \<Rightarrow> foldl (\<lambda>acc x. acc @ [nl] @ x) l rest)"

text \<open>The six built-in stanzas. The first literal opens with a line break.\<close>

definition builtinOBOObjects :: "string list" where
  "builtinOBOObjects =
    [join_nl ['''', ''[Typedef]'', ''id: is_a'', ''name: is_a'', ''range: OBO:TERM_OR_TYPE'',
              ''domain: OBO:TERM_OR_TYPE'',
              ''definition: The basic subclassing relationship [OBO:defs]''],
     join_nl [''[Typedef]'', ''id: disjoint_from'', ''name: disjoint_from'', ''range: OBO:TERM'',
              ''domain: OBO:TERM'', ''definition: Indicates that two classes are disjoint [OBO:defs]''],
     join_nl [''[Typedef]'', ''id: instance_of'', ''name: instance_of'', ''range: OBO:TERM'',
              ''domain: OBO:INSTANCE'', ''definition: Indicates the type of an instance [OBO:defs]''],
     join_nl [''[Typedef]'', ''id: inverse_of'', ''name: inverse_of'', ''range: OBO:TYPE'',
              ''domain: OBO:TYPE'',
              ''definition: Indicates that one relationship type is the inverse of another [OBO:defs]''],
     join_nl [''[Typedef]'', ''id: union_of'', ''name: union_of'', ''range: OBO:TERM'',
              ''domain: OBO:TERM'',
              ''definition: Indicates that a term is the union of several others [OBO:defs]''],
     join_nl [''[Typedef]'', ''id: intersection_of'', ''name: intersection_of'', ''range: OBO:TERM'',
              ''domain: OBO:TERM'',
              ''definition: Indicates that a term is the intersection of several others [OBO:defs]'']]"

text \<open>A loop whose body may raise: the first error ends it.\<close>

fun for_each :: "('s \<Rightarrow> 'a \<Rightarrow> 's res) \<Rightarrow> 's \<Rightarrow> 'a list \<Rightarrow> 's res" where
  "for_each f s [] = Ok s"
| "for_each f s (x # xs) = (case f s x of Err e \<Rightarrow> Err e | Ok s' \<Rightarrow> for_each f s' xs)"

text \<open>
  \<open>Term(self, block)\<close> followed by \<open>self.terms[term.id] = term\<close>: the constructor parses
  the stanza into a fresh object; a list as key is unhashable.
\<close>

definition new_object :: "string set \<Rightarrow> string \<Rightarrow> (string \<times> OBOObject) res" where
  "new_object mts block =
     (case ParseStanza mts OBOObject_new block of
        Err e \<Rightarrow> Err e
      | Ok obj \<Rightarrow>
         (case get_id obj of
            Err e \<Rightarrow> Err e
          | Ok (Multi vs) \<Rightarrow> Err TypeError
          | Ok (Single i) \<Rightarrow> Ok (i, obj)))"

definition parse_block :: "string set \<Rightarrow> Ontology \<Rightarrow> string \<Rightarrow> Ontology res" where
  "parse_block mts ont block =
     (if startswith block ''[Term]'' then
        (case new_object mts block of
           Err e \<Rightarrow> Err e
         | Ok (i, obj) \<Rightarrow> Ok (ont\<lparr>terms := dict_set i obj (terms ont)\<rparr>))
      else if startswith block ''[Typedef]'' then
        (case new_object mts block of
           Err e \<Rightarrow> Err e
         | Ok (i, obj) \<Rightarrow> Ok (ont\<lparr>typedefs := dict_set i obj (typedefs ont)\<rparr>))
      else if startswith block ''[Instance]'' then
        (case new_object mts block of
           Err e \<Rightarrow> Err e
         | Ok (i, obj) \<Rightarrow> Ok (ont\<lparr>instances := dict_set i obj (instances ont)\<rparr>))
      else Ok ont)"

text \<open>
  The inner statement of the last loop of \<open>ParseFile\<close>:
  \<open>self.terms[parent].relatedTo.add((typeId, id))\<close>, after unpacking the tuple.
\<close>

definition add_reverse :: "string \<Rightarrow> (string \<times> OBOObject) list \<Rightarrow> string list
    \<Rightarrow> (string \<times> OBOObject) list res" where
  "add_reverse i ts edge =
     (case edge of
        [typeId, parent] \<Rightarrow>
          (case map_of ts parent of
             None \<Rightarrow> Err KeyError
           | Some p \<Rightarrow>
               Ok (dict_set parent (p\<lparr>relatedTo := set_add (typeId, i) (relatedTo p)\<rparr>) ts))
      | _ \<Rightarrow> Err ValueError)"

definition invert_term :: "(string \<times> OBOObject) list \<Rightarrow> string \<times> OBOObject
    \<Rightarrow> (string \<times> OBOObject) list res" where
  "invert_term ts item = for_each (add_reverse (fst item)) ts (related (snd item))"

text \<open>
  \<open>ParseFile\<close> from the point where the text has been read and cut into stanzas:
  \<open>data\<close> is the list the regular expression returns. No progress callback is passed
  (the default), so the loop does nothing but parse.
\<close>

definition ParseFile :: "string set \<Rightarrow> Ontology \<Rightarrow> string list \<Rightarrow> Ontology res" where
  "ParseFile mts ont data =
     (case for_each (parse_block mts) ont (builtinOBOObjects @ data) of
        Err e \<Rightarrow> Err e
      | Ok ont1 \<Rightarrow>
         (case for_each invert_term (terms ont1) (terms ont1) of
            Err e \<Rightarrow> Err e
          | Ok ts \<Rightarrow> Ok (ont1\<lparr>terms := ts\<rparr>)))"

text \<open>\<open>Ontology(file)\<close>: the constructor starts from empty dictionaries.\<close>

definition Ontology_init :: "string set \<Rightarrow> string list \<Rightarrow> Ontology res" where
  "Ontology_init mts data = ParseFile mts Ontology_new data"

text \<open>\<open>Ontology.__getitem__\<close>.\<close>

definition Ontology_getitem :: "Ontology \<Rightarrow> string \<Rightarrow> OBOObject res" where
  "Ontology_getitem ont name = (case map_of (terms ont) name of None \<Rightarrow> Err KeyError | Some t \<Rightarrow> Ok t)"

subsection \<open>Closure queries\<close>

text \<open>\<open>[id for typeId, id in edges]\<close>: a tuple that is not a pair cannot be unpacked.\<close>

fun unpack_ids :: "string list list \<Rightarrow> string list res" where
  "unpack_ids [] = Ok []"
| "unpack_ids (e # es) =
     (case e of
        [typeId, i] \<Rightarrow> (case unpack_ids es of Err x \<Rightarrow> Err x | Ok is \<Rightarrow> Ok (i # is))
      | _ \<Rightarrow> Err ValueError)"

definition super_ids :: "Ontology \<Rightarrow> string \<Rightarrow> string list res" where
  "super_ids ont term =
     (case map_of (terms ont) term of None \<Rightarrow> Err KeyError | Some t \<Rightarrow> unpack_ids (related t))"

definition sub_ids :: "Ontology \<Rightarrow> string \<Rightarrow> string list res" where
  "sub_ids ont term =
     (case map_of (terms ont) term of None \<Rightarrow> Err KeyError | Some t \<Rightarrow> Ok (map snd (relatedTo t)))"

text \<open>
  The \<open>while queue:\<close> loop shared by \<open>ExtractSuperGraph\<close> and \<open>ExtractSubGraph\<close>; the two
  differ in the edges they follow (\<open>ids_of\<close>). \<open>queue.pop()\<close> removes an element Python
  chooses: \<open>pop\<close> is that choice. A loop that does not end has the value \<open>None\<close>.
\<close>

partial_function (option) closure_loop ::
    "(string list \<Rightarrow> string) \<Rightarrow> (string \<Rightarrow> string list res) \<Rightarrow> string list \<Rightarrow> string list
      \<Rightarrow> string list res option" where
  "closure_loop pop ids_of visited queue =
     (if queue = [] then Some (Ok visited)
      else
        (let term = pop queue;
             queue1 = removeAll term queue;
             visited1 = set_add term visited
         in case ids_of term of
              Err e \<Rightarrow> Some (Err e)
            | Ok ids \<Rightarrow>
                closure_loop pop ids_of visited1
                  (set_update queue1 (filter (\<lambda>i. i \<notin> set visited1) (remdups ids)))))"

declare closure_loop.simps [code]

definition ExtractSuperGraph ::
    "(string list \<Rightarrow> string) \<Rightarrow> Ontology \<Rightarrow> string list \<Rightarrow> string list res option" where
  "ExtractSuperGraph pop ont ts = closure_loop pop (super_ids ont) [] (remdups ts)"

definition ExtractSubGraph ::
    "(string list \<Rightarrow> string) \<Rightarrow> Ontology \<Rightarrow> string list \<Rightarrow> string list res option" where
  "ExtractSubGraph pop ont ts = closure_loop pop (sub_ids ont) [] (remdups ts)"

text \<open>What \<open>set.pop\<close> guarantees: the element comes from the set.\<close>

definition pop_ok :: "(string list \<Rightarrow> string) \<Rightarrow> bool" where
  "pop_ok pop = (\<forall>q. q \<noteq> [] \<longrightarrow> pop q \<in> set q)"

subsection \<open>GetTermDepth\<close>

text \<open>
  The body of \<open>GetTermDepth\<close> reads and writes the name \<open>cache\<close>, while its parameter is
  called \<open>cache_\<close>. obiGO.py binds no module-level \<open>cache\<close>; the only other source of names
  is \<open>from go import *\<close>. The binding of that global name is the state here: \<open>None\<close> when
  the name is unbound (the lookup raises NameError), \<open>Some c\<close> when it is bound to the
  dictionary \<open>c\<close>. The first argument is the number of stack frames left; Python raises
  RuntimeError when the recursion runs out of them.
\<close>

type_synonym depth_cache = "(string \<rightharpoonup> nat) option"

fun depth_parents :: "(depth_cache \<Rightarrow> string \<Rightarrow> nat res \<times> depth_cache) \<Rightarrow> depth_cache
    \<Rightarrow> string list list \<Rightarrow> nat list res \<times> depth_cache" where
  "depth_parents rec g [] = (Ok [], g)"
| "depth_parents rec g (e # es) =
     (case e of
        [typeId, parent] \<Rightarrow>
          (case rec g parent of
             (Err x, g1) \<Rightarrow> (Err x, g1)
           | (Ok d, g1) \<Rightarrow>
               (case depth_parents rec g1 es of
                  (Err x, g2) \<Rightarrow> (Err x, g2)
                | (Ok ds, g2) \<Rightarrow> (Ok ((d + 1) # ds), g2)))
      | _ \<Rightarrow> (Err ValueError, g))"

primrec GetTermDepth :: "nat \<Rightarrow> Ontology \<Rightarrow> depth_cache \<Rightarrow> string \<Rightarrow> nat res \<times> depth_cache" where
  "GetTermDepth 0 ont g term = (Err RuntimeError, g)"
| "GetTermDepth (Suc n) ont g term =
     (case g of
        None \<Rightarrow> (Err NameError, g)
      | Some c \<Rightarrow>
          (case c term of
             Some d \<Rightarrow> (Ok d, g)
           | None \<Rightarrow>
               (case map_of (terms ont) term of
                  None \<Rightarrow> (Err KeyError, g)
                | Some t \<Rightarrow>
                    (case depth_parents (GetTermDepth n ont) g (related t) of
                       (Err x, g1) \<Rightarrow> (Err x, g1)
                     | (Ok ds, g1) \<Rightarrow>
                         (let d = (if ds = [] then 1 else Min (set ds))
                          in case g1 of
                               None \<Rightarrow> (Err NameError, g1)
                             | Some c1 \<Rightarrow> (Ok d, Some (c1(term \<mapsto> d))))))))"

section \<open>Annotations\<close>

text \<open>
  The class \<open>Annotation\<close> is defined in the module \<open>go\<close>, outside the sources at hand.
  The record has the attributes the modelled methods read. Python compares and hashes
  the objects by identity: \<open>ident\<close> is that identity (the keys of \<open>annotationsById\<close>).
\<close>

record Annotation =
  ident :: nat
  geneName :: string
  GO_ID :: string
  Evidence_code :: string
  Aspect :: string

text \<open>
  An entry of \<open>allAnnotations\<close> is a list, as \<open>_CollectAnnotations\<close> leaves it, or a set,
  once \<open>GetAllAnnotations\<close> has reduced it. The elements of such a list are references
  to objects that live elsewhere in the store: the list \<open>termAnnotations[t]\<close>, or the set
  held in \<open>allAnnotations[t]\<close>. Neither dictionary ever replaces such an object by
  another one (a set entry is never assigned again, a \<open>defaultdict\<close> creates its list
  once), so the key \<open>t\<close> names the object, and a later change of the object in place is
  seen through the reference.
\<close>

datatype chunk = ListOf string | SetOf string

datatype cache_entry = RawList "chunk list" | Reduced "Annotation list"

record Annotations =
  allAnnotations :: "string \<rightharpoonup> cache_entry"
  geneAnnotations :: "string \<rightharpoonup> Annotation list"
  termAnnotations :: "string \<rightharpoonup> Annotation list"
  geneNames :: "string list"
  aliasMapper :: "string \<rightharpoonup> string"
  additionalAliases :: "string \<rightharpoonup> string"

text \<open>
  \<open>d[k]\<close> on a \<open>defaultdict(list)\<close>: the value read (\<open>dd_get\<close>), and the dictionary
  afterwards (\<open>dd_touch\<close>), which has gained the key with an empty list if it was missing.
\<close>

definition dd_get :: "(string \<rightharpoonup> 'a list) \<Rightarrow> string \<Rightarrow> 'a list" where
  "dd_get d k = (case d k of None \<Rightarrow> [] | Some v \<Rightarrow> v)"

definition dd_touch :: "(string \<rightharpoonup> 'a list) \<Rightarrow> string \<Rightarrow> (string \<rightharpoonup> 'a list)" where
  "dd_touch d k = (case d k of None \<Rightarrow> d(k \<mapsto> []) | Some v \<Rightarrow> d)"

definition chunk_items :: "Annotations \<Rightarrow> chunk \<Rightarrow> Annotation list" where
  "chunk_items st ch =
     (case ch of
        ListOf t \<Rightarrow> dd_get (termAnnotations st) t
      | SetOf t \<Rightarrow> (case allAnnotations st t of Some (Reduced s) \<Rightarrow> s | _ \<Rightarrow> []))"

text \<open>
  The loop over the children in \<open>_CollectAnnotations\<close>. A child whose entry is a set
  contributes that set (by reference), a child whose entry is a list contributes the
  elements of the list.
\<close>

fun collect_children :: "(Annotations \<Rightarrow> string \<Rightarrow> cache_entry res \<times> Annotations) \<Rightarrow> Annotations
    \<Rightarrow> chunk list \<Rightarrow> (string \<times> string) list \<Rightarrow> chunk list res \<times> Annotations" where
  "collect_children rec st annotations [] = (Ok annotations, st)"
| "collect_children rec st annotations ((typeId, child) # cs) =
     (case rec st child of
        (Err e, st1) \<Rightarrow> (Err e, st1)
      | (Ok (Reduced s), st1) \<Rightarrow> collect_children rec st1 (annotations @ [SetOf child]) cs
      | (Ok (RawList aa), st1) \<Rightarrow> collect_children rec st1 (annotations @ aa) cs)"

text \<open>
  \<open>_CollectAnnotations\<close>. The first argument is the number of stack frames left.
  \<open>self.termAnnotations[id]\<close> is read before \<open>self.ontology[id]\<close>, so the key is added to
  \<open>termAnnotations\<close> even when the lookup in the ontology then raises.
\<close>

primrec CollectAnnotations :: "nat \<Rightarrow> Ontology \<Rightarrow> Annotations \<Rightarrow> string
    \<Rightarrow> cache_entry res \<times> Annotations" where
  "CollectAnnotations 0 ont st i = (Err RuntimeError, st)"
| "CollectAnnotations (Suc n) ont st i =
     (case allAnnotations st i of
        Some e \<Rightarrow> (Ok e, st)
      | None \<Rightarrow>
          (let st1 = st\<lparr>termAnnotations := dd_touch (termAnnotations st) i\<rparr>
           in case Ontology_getitem ont i of
                Err e \<Rightarrow> (Err e, st1)
              | Ok t \<Rightarrow>
                  (case collect_children (CollectAnnotations n ont) st1 [ListOf i] (relatedTo t) of
                     (Err e, st2) \<Rightarrow> (Err e, st2)
                   | (Ok annotations, st2) \<Rightarrow>
                       (Ok (RawList annotations),
                        st2\<lparr>allAnnotations := (allAnnotations st2)(i \<mapsto> RawList annotations)\<rparr>))))"

text \<open>
  \<open>GetAllAnnotations\<close>. The set it returns is the object stored in the cache: a caller
  that changes it in place changes the entry.
\<close>

definition GetAllAnnotations :: "nat \<Rightarrow> Ontology \<Rightarrow> Annotations \<Rightarrow> string
    \<Rightarrow> Annotation list res \<times> Annotations" where
  "GetAllAnnotations n ont st i =
     (case allAnnotations st i of
        Some (Reduced s) \<Rightarrow> (Ok s, st)
      | _ \<Rightarrow>
          (case CollectAnnotations n ont st i of
             (Err e, st1) \<Rightarrow> (Err e, st1)
           | (Ok (Reduced s), st1) \<Rightarrow> (Err TypeError, st1)
           | (Ok (RawList chunks), st1) \<Rightarrow>
               (let annot_set = foldl (\<lambda>acc ch. set_update acc (chunk_items st1 ch)) [] chunks
                in (Ok annot_set,
                    st1\<lparr>allAnnotations := (allAnnotations st1)(i \<mapsto> Reduced annot_set)\<rparr>))))"

subsection \<open>GetEnrichedTerms\<close>

text \<open>\<open>GetGeneNamesTranslator\<close>: a name whose alias is \<open>None\<close> or empty is left out.\<close>

definition alias_of :: "Annotations \<Rightarrow> string \<Rightarrow> string option" where
  "alias_of st gene =
     (case aliasMapper st gene of Some a \<Rightarrow> Some a | None \<Rightarrow> additionalAliases st gene)"

definition GetGeneNamesTranslator :: "Annotations \<Rightarrow> string list \<Rightarrow> (string \<times> string) list" where
  "GetGeneNamesTranslator st genes =
     foldl (\<lambda>d gene. case alias_of st gene of
                        Some a \<Rightarrow> (if a \<noteq> [] then dict_set a gene d else d)
                      | None \<Rightarrow> d) [] genes"

text \<open>
  \<open>[ann for gene in genes for ann in self.geneAnnotations[gene] if ...]\<close>: the
  annotations read, and \<open>geneAnnotations\<close> after the reads.
\<close>

definition select_annotations :: "(string \<rightharpoonup> Annotation list) \<Rightarrow> string list \<Rightarrow> string list
    \<Rightarrow> string \<Rightarrow> Annotation list" where
  "select_annotations ga genes evidenceCodes aspect =
     concat (map (\<lambda>gene. filter (\<lambda>ann. Evidence_code ann \<in> set evidenceCodes \<and> Aspect ann = aspect)
                              (dd_get ga gene)) genes)"

definition touch_all :: "(string \<rightharpoonup> 'a list) \<Rightarrow> string list \<Rightarrow> (string \<rightharpoonup> 'a list)" where
  "touch_all d ks = foldl dd_touch d ks"

text \<open>\<open>[revGenesDict[g] for g in mappedGenes]\<close>.\<close>

fun lookup_each :: "(string \<times> string) list \<Rightarrow> string list \<Rightarrow> string list res" where
  "lookup_each d [] = Ok []"
| "lookup_each d (g # gs) =
     (case map_of d g of
        None \<Rightarrow> Err KeyError
      | Some v \<Rightarrow> (case lookup_each d gs of Err e \<Rightarrow> Err e | Ok vs \<Rightarrow> Ok (v # vs)))"

text \<open>\<open>a.intersection(b)\<close>, written for the side the source calls it on.\<close>

definition intersection :: "'a list \<Rightarrow> 'a list \<Rightarrow> 'a list" where
  "intersection a b = filter (\<lambda>x. x \<in> set b) a"

type_synonym 'p enrichment = "(string \<times> string list \<times> 'p \<times> nat) list"

text \<open>
  The body of the loop \<open>for i, term in enumerate(terms)\<close>. \<open>intersection_update\<close> works
  on the set \<open>GetAllAnnotations\<close> returned, that is, on the cache entry of \<open>term\<close>.
  \<open>p_value\<close> is the method of \<open>obiProb.Binomial\<close>, another module outside the sources.
\<close>

definition enrich_term :: "(nat \<Rightarrow> nat \<Rightarrow> nat \<Rightarrow> nat \<Rightarrow> 'p) \<Rightarrow> nat \<Rightarrow> Ontology
    \<Rightarrow> (string \<times> string) list \<Rightarrow> string list \<Rightarrow> string list \<Rightarrow> Annotation list
    \<Rightarrow> 'p enrichment \<times> Annotations \<Rightarrow> string \<Rightarrow> ('p enrichment res \<times> Annotations)" where
  "enrich_term p_value n ont revGenesDict genes reference refAnnotations rs term =
     (case GetAllAnnotations n ont (snd rs) term of
        (Err e, st1) \<Rightarrow> (Err e, st1)
      | (Ok all0, st1) \<Rightarrow>
          (let allAnnots = intersection all0 refAnnotations;
               st2 = st1\<lparr>allAnnotations := (allAnnotations st1)(term \<mapsto> Reduced allAnnots)\<rparr>;
               allAnnotatedGenes = remdups (map geneName allAnnots);
               mappedGenes = (if length genes > length allAnnotatedGenes
                              then intersection genes allAnnotatedGenes
                              else intersection allAnnotatedGenes genes);
               mappedReferenceGenes = (if length reference > length allAnnotatedGenes
                                       then intersection reference allAnnotatedGenes
                                       else intersection allAnnotatedGenes reference)
           in case lookup_each revGenesDict mappedGenes of
                Err e \<Rightarrow> (Err e, st2)
              | Ok names \<Rightarrow>
                  (Ok (dict_set term
                         (names,
                          p_value (length mappedGenes) (length reference)
                                  (length mappedReferenceGenes) (length genes),
                          length mappedReferenceGenes) (fst rs)), st2)))"

fun enrich_loop :: "('p enrichment \<times> Annotations \<Rightarrow> string \<Rightarrow> 'p enrichment res \<times> Annotations)
    \<Rightarrow> 'p enrichment \<times> Annotations \<Rightarrow> string list \<Rightarrow> 'p enrichment res \<times> Annotations" where
  "enrich_loop body rs [] = (Ok (fst rs), snd rs)"
| "enrich_loop body rs (t # ts) =
     (case body rs t of
        (Err e, st1) \<Rightarrow> (Err e, st1)
      | (Ok r1, st1) \<Rightarrow> enrich_loop body (r1, st1) ts)"

text \<open>
  \<open>GetEnrichedTerms\<close>. \<open>reference\<close> and \<open>evidenceCodes\<close> are \<open>None\<close> or a collection;
  \<open>evidenceDict\<close> is a dictionary of the module \<open>go\<close>, its keys are the parameter
  \<open>evidence_keys\<close>. The result is \<open>None\<close> when the call does not return.
\<close>

definition GetEnrichedTerms :: "(string list \<Rightarrow> string) \<Rightarrow> (nat \<Rightarrow> nat \<Rightarrow> nat \<Rightarrow> nat \<Rightarrow> 'p)
    \<Rightarrow> string list \<Rightarrow> nat \<Rightarrow> Ontology \<Rightarrow> Annotations \<Rightarrow> string list \<Rightarrow> string list option
    \<Rightarrow> string list option \<Rightarrow> string \<Rightarrow> ('p enrichment res \<times> Annotations) option" where
  "GetEnrichedTerms pop p_value evidence_keys n ont st genes0 reference0 evidenceCodes0 aspect =
     (let revGenesDict = GetGeneNamesTranslator st genes0;
          genes = map fst revGenesDict;
          reference = (case reference0 of
                         None \<Rightarrow> geneNames st
                       | Some r \<Rightarrow> if r = [] then geneNames st else remdups r);
          evidenceCodes = (case evidenceCodes0 of
                             None \<Rightarrow> remdups evidence_keys
                           | Some c \<Rightarrow> if c = [] then remdups evidence_keys else remdups c);
          annotations = select_annotations (geneAnnotations st) genes evidenceCodes aspect;
          st1 = st\<lparr>geneAnnotations := touch_all (geneAnnotations st) genes\<rparr>;
          refAnnotations = remdups (select_annotations (geneAnnotations st1) reference evidenceCodes aspect);
          st2 = st1\<lparr>geneAnnotations := touch_all (geneAnnotations st1) reference\<rparr>;
          annotationsDict_keys = remdups (map GO_ID annotations)
      in case ExtractSuperGraph pop ont annotationsDict_keys of
           None \<Rightarrow> None
         | Some (Err e) \<Rightarrow> Some (Err e, st2)
         | Some (Ok ts) \<Rightarrow>
             Some (enrich_loop (enrich_term p_value n ont revGenesDict genes reference refAnnotations)
                     ([], st2) ts))"

section \<open>The FDR pass of the enrichment widget\<close>

text \<open>
  \<open>OWGOEnrichmentAnalysis\<close> extends every tuple of the enrichment result by one value:
  \<open>terms[i] = tuple(list(terms[i]) + [fdr])\<close>. A result tuple is modelled with its first
  three components and the list of the values appended after them, which is empty in
  what \<open>get_enriched_terms\<close> returns.
\<close>

type_synonym 'p term_result = "string list \<times> 'p \<times> nat \<times> 'p list"

definition pval :: "'p term_result \<Rightarrow> 'p" where
  "pval d = fst (snd d)"

definition append_value :: "'p term_result \<Rightarrow> 'p \<Rightarrow> 'p term_result" where
  "append_value d v = (case d of (genes, p, refCount, rest) \<Rightarrow> (genes, p, refCount, rest @ [v]))"

definition store_fdr :: "(string \<times> 'p term_result) list \<Rightarrow> string \<times> 'p
    \<Rightarrow> (string \<times> 'p term_result) list res" where
  "store_fdr ts x =
     (case map_of ts (fst x) of
        None \<Rightarrow> Err KeyError
      | Some d \<Rightarrow> Ok (dict_set (fst x) (append_value d (snd x)) ts))"

text \<open>
  The statements between the call of \<open>get_enriched_terms\<close> and the end of the branch:
  the two loops over \<open>self.terms.items()\<close> and over \<open>zip(ids, stats.FDR(pvals))\<close>. The
  function \<open>stats.FDR\<close> is a parameter.
\<close>

definition Enrichment_fdr :: "('p list \<Rightarrow> 'p list) \<Rightarrow> (string \<times> 'p term_result) list
    \<Rightarrow> (string \<times> 'p term_result) list res" where
  "Enrichment_fdr fdr_fun ts =
     (let ids = map fst ts;
          pvals = map (\<lambda>item. pval (snd item)) ts
      in for_each store_fdr ts (zip ids (fdr_fun pvals)))"

text \<open>
  Modelled from the spec: \<open>stats.FDR\<close> of \<open>orangecontrib.bio.utils\<close>, which the widget
  imports and which is not among the sources. The specification gives the procedure:
  sort the p-values ascending, set \<open>fdr_i = p_i * m / rank_i\<close> with \<open>m\<close> the number of tests
  and \<open>rank_i\<close> the 1-based rank, then take a running minimum from the largest rank down
  to the smallest. Each value is returned at the position of its p-value in the input.
  The arithmetic is that of an ordered field; the rounding of floating-point numbers is
  not modelled.
\<close>

fun running_min :: "'p::linorder list \<Rightarrow> 'p list" where
  "running_min [] = []"
| "running_min [x] = [x]"
| "running_min (x # y # ys) = (let r = running_min (y # ys) in min x (hd r) # r)"

definition step_up :: "'p::linordered_field list \<Rightarrow> 'p list" where
  "step_up sorted_ps =
     running_min (map (\<lambda>(i, p). p * of_nat (length sorted_ps) / of_nat (i + 1))
                      (enumerate 0 sorted_ps))"

definition FDR :: "'p::linordered_field list \<Rightarrow> 'p list" where
  "FDR ps =
     (let order = sort_key (\<lambda>i. ps ! i) [0..<length ps];
          adjusted = step_up (map (\<lambda>i. ps ! i) order)
      in map snd (sort_key fst (zip order adjusted)))"

section \<open>A small store\<close>

text \<open>
  One term \<open>T\<close> without relations, and two genes annotated to it. \<open>record_args\<close> stands
  for \<open>p_value\<close> and returns its four arguments, so that a result shows what the test
  was called with.
\<close>

definition ann1 :: Annotation where
  "ann1 = \<lparr>ident = 1, geneName = ''g1'', GO_ID = ''T'', Evidence_code = ''IDA'', Aspect = ''P''\<rparr>"

definition ann2 :: Annotation where
  "ann2 = \<lparr>ident = 2, geneName = ''g2'', GO_ID = ''T'', Evidence_code = ''IDA'', Aspect = ''P''\<rparr>"

definition ex_ontology :: Ontology where
  "ex_ontology = \<lparr>terms = [(''T'', OBOObject_new)], typedefs = [], instances = []\<rparr>"

definition ex_store :: Annotations where
  "ex_store =
     \<lparr>allAnnotations = Map.empty,
      geneAnnotations = [''g1'' \<mapsto> [ann1], ''g2'' \<mapsto> [ann2]],
      termAnnotations = [''T'' \<mapsto> [ann1, ann2]],
      geneNames = [''g1'', ''g2''],
      aliasMapper = [''g1'' \<mapsto> ''g1'', ''g2'' \<mapsto> ''g2''],
      additionalAliases = Map.empty\<rparr>"

definition record_args :: "nat \<Rightarrow> nat \<Rightarrow> nat \<Rightarrow> nat \<Rightarrow> nat \<times> nat \<times> nat \<times> nat" where
  "record_args k N K n = (k, N, K, n)"

section \<open>Auxiliary notions for the proofs\<close>

text \<open>
  Every id a closure query can meet: the ids it is given and the ids the edges of the
  graph name. The set is finite, because the graph is.
\<close>

definition super_universe :: "Ontology \<Rightarrow> string list \<Rightarrow> string set" where
  "super_universe ont ts = set ts \<union> (\<Union>item\<in>set (terms ont). \<Union>e\<in>set (related (snd item)). set e)"

definition sub_universe :: "Ontology \<Rightarrow> string list \<Rightarrow> string set" where
  "sub_universe ont ts = set ts \<union> (\<Union>item\<in>set (terms ont). snd ` set (relatedTo (snd item)))"

text \<open>Two terms, each the parent of the other.\<close>

definition cyclic_ontology :: Ontology where
  "cyclic_ontology =
     \<lparr>terms = [(''A'', OBOObject_new\<lparr>related := [[''is_a'', ''B'']], relatedTo := [(''is_a'', ''B'')]\<rparr>),
               (''B'', OBOObject_new\<lparr>related := [[''is_a'', ''A'']], relatedTo := [(''is_a'', ''A'')]\<rparr>)],
      typedefs = [], instances = []\<rparr>"

text \<open>
  The terms as the first loop of \<open>ParseFile\<close> leaves them when it starts from an empty
  graph: distinct keys, each object stored under its own id, no reverse edge yet.
\<close>

definition fresh_terms :: "(string \<times> OBOObject) list \<Rightarrow> bool" where
  "fresh_terms ts =
     (distinct (map fst ts) \<and>
      (\<forall>item\<in>set ts. relatedTo (snd item) = [] \<and> get_id (snd item) = Ok (Single (fst item))))"

text \<open>Two dictionaries with the same keys whose objects differ in \<open>relatedTo\<close> at most.\<close>

definition same_objects :: "(string \<times> OBOObject) list \<Rightarrow> (string \<times> OBOObject) list \<Rightarrow> bool" where
  "same_objects ts ts' =
     (\<forall>k. rel_option (\<lambda>t t'. obj_lines t' = obj_lines t \<and> obj_values t' = obj_values t
                                \<and> related t' = related t) (map_of ts k) (map_of ts' k))"

definition reverse_edges :: "(string \<times> OBOObject) list \<Rightarrow> string \<Rightarrow> (string \<times> string) set" where
  "reverse_edges ts p = (case map_of ts p of None \<Rightarrow> {} | Some obj \<Rightarrow> set (relatedTo obj))"

text \<open>Two stanzas: the term \<open>A\<close> with the parent \<open>R\<close>, and \<open>R\<close>.\<close>

definition stanza_A :: string where
  "stanza_A = join_nl [''[Term]'', ''id: A'', ''is_a: R ! root'', '''']"

definition stanza_R :: string where
  "stanza_R = join_nl [''[Term]'', ''id: R'', '''']"

text \<open>An enrichment result with two tested terms, with exact p-values.\<close>

definition ex_terms :: "(string \<times> rat term_result) list" where
  "ex_terms = [(''a'', ([''g''], 1 / 100, 1, [])), (''b'', ([], 1 / 25, 2, []))]"

text \<open>Every id that has an entry in the cache is a term of the graph.\<close>

definition cache_in_graph :: "Ontology \<Rightarrow> Annotations \<Rightarrow> bool" where
  "cache_in_graph ont st = (\<forall>t e. allAnnotations st t = Some e \<longrightarrow> map_of (terms ont) t \<noteq> None)"

text \<open>The reference population \<open>GetEnrichedTerms\<close> works with.\<close>

definition reference_of :: "Annotations \<Rightarrow> string list option \<Rightarrow> string list" where
  "reference_of st reference0 =
     (case reference0 of None \<Rightarrow> geneNames st | Some r \<Rightarrow> if r = [] then geneNames st else remdups r)"

text \<open>
  Two stores with the same cache in which every read of \<open>termAnnotations\<close> gives the same
  list.
\<close>

definition same_reads :: "Annotations \<Rightarrow> Annotations \<Rightarrow> bool" where
  "same_reads st st' =
     (allAnnotations st' = allAnnotations st \<and>
      (\<forall>t. dd_get (termAnnotations st') t = dd_get (termAnnotations st) t))"

text \<open>A step that cannot tell such stores apart and keeps them so.\<close>

definition keeps_reads :: "(Annotations \<Rightarrow> string \<Rightarrow> cache_entry res \<times> Annotations) \<Rightarrow> bool" where
  "keeps_reads rec =
     (\<forall>st st' c. same_reads st st' \<longrightarrow>
        fst (rec st c) = fst (rec st' c) \<and> same_reads (snd (rec st c)) (snd (rec st' c)))"

text \<open>
  An entry of an enrichment result whose p-value comes from a call of \<open>p_value\<close> with the
  population size \<open>N\<close>, the count of the entry and the query size \<open>n\<close>.
\<close>

definition tested_against :: "(nat \<Rightarrow> nat \<Rightarrow> nat \<Rightarrow> nat \<Rightarrow> 'p) \<Rightarrow> nat \<Rightarrow> nat
    \<Rightarrow> string \<times> string list \<times> 'p \<times> nat \<Rightarrow> bool" where
  "tested_against pv N n entry =
     (case entry of (t, names, p, count) \<Rightarrow> \<exists>k. p = pv k N count n)"

text \<open>
  A cache in which every entry of a term accounts for the direct annotations of the
  term: a set contains them, a list holds the reference to \<open>termAnnotations[t]\<close>.
\<close>

definition cache_covers :: "Annotations \<Rightarrow> bool" where
  "cache_covers st =
     ((\<forall>t s. allAnnotations st t = Some (Reduced s)
          \<longrightarrow> set (dd_get (termAnnotations st) t) \<subseteq> set s) \<and>
      (\<forall>t chunks. allAnnotations st t = Some (RawList chunks) \<longrightarrow> ListOf t \<in> set chunks))"

section \<open>Stanza lines with more than one comment marker\<close>

text \<open>
  Claim C7. For every stanza line containing a colon, \<open>ParseStanza\<close> splits on the first
  colon, splits off the comment after the marker \<open>!\<close>, extracts the modifier block and
  keeps the trimmed value. The code cuts \<open>rest\<close> at every \<open>!\<close> and unpacks the parts into
  two names, so a line whose text after the colon holds two markers is not parsed: the
  call raises ValueError, whatever the set of multi-valued tags is.
\<close>

theorem ParseStanza_two_comment_markers:
  "ParseStanza mts OBOObject_new ''name: cell ! a ! b'' = Err ValueError"
  by (simp add: ParseStanza_def nl_def parse_line_def split_first_def)

text \<open>With one marker the same line is parsed as the claim describes.\<close>

lemma ParseStanza_one_comment_marker:
  "ParseStanza {''is_a''} OBOObject_new ''name: cell ! a'' =
     Ok \<lparr>obj_lines = [(''name'', ''cell'', '''', '' a'')],
         obj_values = [''name'' \<mapsto> Single ''cell''], related = [], relatedTo = []\<rparr>"
  by (simp add: ParseStanza_def nl_def parse_line_def split_first_def OBOObject_new_def
      strip_def strip_chars_def isspace_def GetRelatedObjects_def iter_tag_def Let_def)

text \<open>
  The same holds for every line: whenever the text after the first colon holds two or
  more markers, the line is not parsed.
\<close>

lemma length_split_all: "length (split_all c s) = Suc (length (filter (\<lambda>x. x = c) s))"
  by (induction s) (auto split: list.splits)

lemma parse_line_many_markers:
  assumes "CHR '':'' \<in> set line"
    and "2 \<le> length (filter (\<lambda>x. x = CHR ''!'') (tl (dropWhile (\<lambda>x. x \<noteq> CHR '':'') line)))"
  shows "parse_line mts obj line = Err ValueError"
proof -
  let ?rest = "tl (dropWhile (\<lambda>x. x \<noteq> CHR '':'') line)"
  have "3 \<le> length (split_all (CHR ''!'') ?rest)"
    using assms(2) by (simp add: length_split_all)
  then obtain a b c ds where parts: "split_all (CHR ''!'') ?rest = a # b # c # ds"
    by (metis Suc_le_length_iff numeral_3_eq_3)
  have "filter (\<lambda>x. x = CHR ''!'') ?rest \<noteq> []" using assms(2) by auto
  then have mark: "CHR ''!'' \<in> set ?rest" by (auto simp: filter_empty_conv)
  show ?thesis
    using assms(1) mark parts by (simp add: parse_line_def split_first_def)
qed

section \<open>The depth of a term\<close>

text \<open>
  Claim C5. \<open>GetTermDepth(t)\<close> returns 1 for a term without parents and otherwise 1 plus
  the minimum depth of its parents, memoized across calls. The body looks the name
  \<open>cache\<close> up before anything else; with that name unbound, every call that gets a
  stack frame raises NameError, for every graph and every term.
\<close>

theorem GetTermDepth_unbound_cache:
  "GetTermDepth (Suc n) ont None t = (Err NameError, None)"
  by simp

text \<open>
  Were the name bound to an empty dictionary, the term of the small graph, which has no
  parents, would get depth 1.
\<close>

lemma GetTermDepth_bound_cache_root:
  "fst (GetTermDepth (Suc n) ex_ontology (Some Map.empty) ''T'') = Ok 1"
  by (simp add: ex_ontology_def OBOObject_new_def)

section \<open>The cache of transitive annotations after an enrichment\<close>

text \<open>
  Claim C1. After any sequence of public operations, calls of \<open>GetEnrichedTerms\<close>
  included, \<open>GetAllAnnotations(t)\<close> contains \<open>termAnnotations[t]\<close>. On the small store,
  an enrichment of the query \<open>g1\<close> against the reference \<open>g1\<close> intersects the cached set of
  \<open>T\<close> with the annotations of the reference in place. \<open>termAnnotations[T]\<close> still holds
  both annotations; \<open>GetAllAnnotations(T)\<close> returns the first one only.
\<close>

theorem GetAllAnnotations_after_enrichment:
  "(case GetEnrichedTerms hd record_args [''IDA''] 5 ex_ontology ex_store
           [''g1''] (Some [''g1'']) None ''P'' of
      None \<Rightarrow> False
    | Some (r, st) \<Rightarrow>
        r = Ok [(''T'', [''g1''], (1, 1, 1, 1), 1)] \<and>
        dd_get (termAnnotations st) ''T'' = [ann1, ann2] \<and>
        fst (GetAllAnnotations 5 ex_ontology st ''T'') = Ok [ann1])"
  by code_simp

text \<open>Before the enrichment the same query returns both annotations.\<close>

lemma GetAllAnnotations_fresh_store:
  "fst (GetAllAnnotations 5 ex_ontology ex_store ''T'') = Ok [ann1, ann2]"
  by code_simp

section \<open>A second enrichment on the same store\<close>

text \<open>
  Claim C2. For every query, reference, evidence filter and aspect the value of a term
  \<open>t\<close> is built from the annotations of \<open>t\<close> and its descendants, intersected with the
  annotations of the reference. On the small store, the enrichment of \<open>g1\<close> against the
  reference \<open>g1, g2\<close> gives \<open>T\<close> two mapped reference genes when it runs first. When it
  runs after an enrichment against the reference \<open>g1\<close>, it finds the cached set of \<open>T\<close>
  already cut down and gives \<open>T\<close> one mapped reference gene: \<open>p_value\<close> is called with
  \<open>K = 1\<close> and the count is 1, although \<open>g2\<close> is annotated to \<open>T\<close> and is in the reference.
\<close>

theorem GetEnrichedTerms_second_call:
  "(case GetEnrichedTerms hd record_args [''IDA''] 5 ex_ontology ex_store
           [''g1''] (Some [''g1'', ''g2'']) None ''P'' of
      None \<Rightarrow> False
    | Some (r, st) \<Rightarrow> r = Ok [(''T'', [''g1''], (1, 2, 2, 1), 2)]) \<and>
   (case GetEnrichedTerms hd record_args [''IDA''] 5 ex_ontology ex_store
           [''g1''] (Some [''g1'']) None ''P'' of
      None \<Rightarrow> False
    | Some (r, st) \<Rightarrow>
        (case GetEnrichedTerms hd record_args [''IDA''] 5 ex_ontology st
                [''g1''] (Some [''g1'', ''g2'']) None ''P'' of
           None \<Rightarrow> False
         | Some (r2, st2) \<Rightarrow> r2 = Ok [(''T'', [''g1''], (1, 2, 1, 1), 1)]))"
  by code_simp

section \<open>An empty query\<close>




section \<open>Termination of the closure queries\<close>

lemma set_set_add: "set (set_add x xs) = insert x (set xs)"
  by (auto simp: set_add_def)

lemma set_set_update: "set (set_update xs ys) = set xs \<union> set ys"
  unfolding set_update_def
  by (induction ys arbitrary: xs) (auto simp: set_set_add)

lemma closure_loop_returns:
  assumes pop: "pop_ok pop"
    and fin: "finite U"
    and closed: "\<forall>t\<in>U. \<forall>ids. ids_of t = Ok ids \<longrightarrow> set ids \<subseteq> U"
  shows "set queue \<subseteq> U \<Longrightarrow> set queue \<inter> set visited = {}
          \<Longrightarrow> \<exists>r. closure_loop pop ids_of visited queue = Some r
                \<and> ((\<forall>t\<in>U. \<exists>ids. ids_of t = Ok ids)
                     \<longrightarrow> (\<exists>v. r = Ok v \<and> set v \<subseteq> U \<union> set visited))"
proof (induction "card (U - set visited)" arbitrary: visited queue rule: less_induct)
  case less
  show ?case
  proof (cases "queue = []")
    case True
    then show ?thesis by (simp add: closure_loop.simps)
  next
    case False
    define tm where "tm = pop queue"
    have tq: "tm \<in> set queue" using pop False by (simp add: pop_ok_def tm_def)
    then have tU: "tm \<in> U" and tv: "tm \<notin> set visited" using less.prems by auto
    show ?thesis
    proof (cases "ids_of tm")
      case (Err e)
      have "closure_loop pop ids_of visited queue = Some (Err e)"
        using False Err by (subst closure_loop.simps) (simp add: tm_def [symmetric] Let_def)
      then show ?thesis using Err tU by (auto intro!: bexI [where x = tm])
    next
      case (Ok ids)
      let ?v = "set_add tm visited"
      let ?q = "set_update (removeAll tm queue) (filter (\<lambda>i. i \<notin> set ?v) (remdups ids))"
      have "U - set ?v \<subset> U - set visited" using tU tv by (auto simp: set_set_add)
      then have m: "card (U - set ?v) < card (U - set visited)"
        using fin by (intro psubset_card_mono) auto
      have sub: "set ?q \<subseteq> U"
        using less.prems(1) closed Ok tU by (auto simp: set_set_update)
      have dis: "set ?q \<inter> set ?v = {}"
        using less.prems(2) by (auto simp: set_set_update set_set_add)
      have unf: "closure_loop pop ids_of visited queue = closure_loop pop ids_of ?v ?q"
        using False Ok by (subst closure_loop.simps) (simp add: tm_def [symmetric] Let_def)
      have "U \<union> set ?v = U \<union> set visited" using tU by (auto simp: set_set_add)
      with less.hyps [OF m sub dis] unf show ?thesis by simp
    qed
  qed
qed

lemma unpack_ids_Ok: "unpack_ids es = Ok ids \<Longrightarrow> i \<in> set ids \<Longrightarrow> \<exists>e\<in>set es. i \<in> set e"
  by (induction es arbitrary: ids) (auto split: list.splits res.splits)

lemma super_universe_closed:
  "super_ids ont t = Ok ids \<Longrightarrow> set ids \<subseteq> super_universe ont ts"
  by (fastforce simp: super_ids_def super_universe_def split: option.splits
      dest: map_of_SomeD unpack_ids_Ok)

lemma sub_universe_closed:
  "sub_ids ont t = Ok ids \<Longrightarrow> set ids \<subseteq> sub_universe ont ts"
  by (fastforce simp: sub_ids_def sub_universe_def split: option.splits dest: map_of_SomeD)

text \<open>
  The loops end, with a set or with an error, on every graph and every input: an id
  that is missing from the graph ends the loop with KeyError.
\<close>

lemma ExtractSuperGraph_returns:
  assumes "pop_ok pop"
  shows "\<exists>r. ExtractSuperGraph pop ont ts = Some r"
proof -
  have "\<exists>r. closure_loop pop (super_ids ont) [] (remdups ts) = Some r
          \<and> ((\<forall>t\<in>super_universe ont ts. \<exists>ids. super_ids ont t = Ok ids)
               \<longrightarrow> (\<exists>v. r = Ok v \<and> set v \<subseteq> super_universe ont ts \<union> set []))"
    by (rule closure_loop_returns [OF assms])
       (auto simp: super_universe_def dest: super_universe_closed [of ont _ _ ts, unfolded super_universe_def])
  then show ?thesis by (auto simp: ExtractSuperGraph_def)
qed

lemma ExtractSubGraph_returns:
  assumes "pop_ok pop"
  shows "\<exists>r. ExtractSubGraph pop ont ts = Some r"
proof -
  have "\<exists>r. closure_loop pop (sub_ids ont) [] (remdups ts) = Some r
          \<and> ((\<forall>t\<in>sub_universe ont ts. \<exists>ids. sub_ids ont t = Ok ids)
               \<longrightarrow> (\<exists>v. r = Ok v \<and> set v \<subseteq> sub_universe ont ts \<union> set []))"
    by (rule closure_loop_returns [OF assms])
       (auto simp: sub_universe_def dest: sub_universe_closed [of ont _ _ ts, unfolded sub_universe_def])
  then show ?thesis by (auto simp: ExtractSubGraph_def)
qed

lemma closure_loop_Ok:
  assumes pop: "pop_ok pop"
    and fin: "finite R"
    and tot: "\<forall>t\<in>R. \<exists>ids. ids_of t = Ok ids \<and> set ids \<subseteq> R"
    and sub: "set ts \<subseteq> R"
  shows "\<exists>v. closure_loop pop ids_of [] (remdups ts) = Some (Ok v) \<and> set v \<subseteq> R"
proof -
  have "\<exists>r. closure_loop pop ids_of [] (remdups ts) = Some r
          \<and> ((\<forall>t\<in>R. \<exists>ids. ids_of t = Ok ids)
               \<longrightarrow> (\<exists>v. r = Ok v \<and> set v \<subseteq> R \<union> set []))"
  proof (rule closure_loop_returns [OF pop fin])
    show "\<forall>t\<in>R. \<forall>ids. ids_of t = Ok ids \<longrightarrow> set ids \<subseteq> R" using tot by force
  qed (use sub in auto)
  then show ?thesis using tot by auto
qed

text \<open>
  Claim C4. For every graph and every input whose ids, and all ids reachable from them,
  are present in the graph, \<open>ExtractSuperGraph\<close> and \<open>ExtractSubGraph\<close> terminate, also
  when the edges form cycles. \<open>up\<close> is a set of present terms that holds the input and is
  closed under the forward edges (each of them a pair), \<open>down\<close> one that is closed under
  the reverse edges. Whatever element \<open>pop\<close> removes from the queue, both loops return a
  set of visited ids, inside \<open>up\<close> and \<open>down\<close>. Nothing is asked of the edges beyond that:
  they may form cycles.
\<close>

theorem closure_queries_terminate:
  assumes "pop_ok pop"
    and "set ts \<subseteq> up"
    and "\<forall>i\<in>up. \<exists>t ids. map_of (terms ont) i = Some t \<and> unpack_ids (related t) = Ok ids
                        \<and> set ids \<subseteq> up"
    and "set ts \<subseteq> down"
    and "\<forall>i\<in>down. \<exists>t. map_of (terms ont) i = Some t \<and> snd ` set (relatedTo t) \<subseteq> down"
  shows "(\<exists>v. ExtractSuperGraph pop ont ts = Some (Ok v) \<and> set v \<subseteq> up) \<and>
         (\<exists>v. ExtractSubGraph pop ont ts = Some (Ok v) \<and> set v \<subseteq> down)"
proof -
  have "up \<subseteq> fst ` set (terms ont)" using assms(3) by (force dest: map_of_SomeD)
  then have fu: "finite up" by (rule finite_subset) simp
  have "down \<subseteq> fst ` set (terms ont)" using assms(5) by (force dest: map_of_SomeD)
  then have fd: "finite down" by (rule finite_subset) simp
  have tu: "\<forall>t\<in>up. \<exists>ids. super_ids ont t = Ok ids \<and> set ids \<subseteq> up"
    using assms(3) by (fastforce simp: super_ids_def)
  have td: "\<forall>t\<in>down. \<exists>ids. sub_ids ont t = Ok ids \<and> set ids \<subseteq> down"
    using assms(5) by (fastforce simp: sub_ids_def)
  show ?thesis
    unfolding ExtractSuperGraph_def ExtractSubGraph_def
    using closure_loop_Ok [OF assms(1) fu tu assms(2)] closure_loop_Ok [OF assms(1) fd td assms(4)]
    by simp
qed

theorem closure_queries_terminate_witness:
  "pop_ok hd \<and>
   (\<exists>v. ExtractSuperGraph hd cyclic_ontology [''A''] = Some (Ok v) \<and> set v \<subseteq> {''A'', ''B''}) \<and>
   (\<exists>v. ExtractSubGraph hd cyclic_ontology [''A''] = Some (Ok v) \<and> set v \<subseteq> {''A'', ''B''})"
proof -
  have p: "pop_ok hd" by (simp add: pop_ok_def)
  have s: "set [''A''] \<subseteq> {''A'', ''B''}" by simp
  have u: "\<forall>i\<in>{''A'', ''B''}. \<exists>t ids. map_of (terms cyclic_ontology) i = Some t
              \<and> unpack_ids (related t) = Ok ids \<and> set ids \<subseteq> {''A'', ''B''}"
    by (simp add: cyclic_ontology_def OBOObject_new_def)
  have d: "\<forall>i\<in>{''A'', ''B''}. \<exists>t. map_of (terms cyclic_ontology) i = Some t
              \<and> snd ` set (relatedTo t) \<subseteq> {''A'', ''B''}"
    by (simp add: cyclic_ontology_def OBOObject_new_def)
  from closure_queries_terminate [OF p s u s d] p show ?thesis by simp
qed

text \<open>On the two-term cycle the ancestors of \<open>A\<close> are both terms.\<close>

lemma ExtractSuperGraph_cycle: "ExtractSuperGraph hd cyclic_ontology [''A''] = Some (Ok [''A'', ''B''])"
  by code_simp

section \<open>Reverse edges after parsing\<close>

lemma map_of_replace:
  "map_of (map (\<lambda>(k', v'). if k' = k then (k', v) else (k', v')) d) x =
     (if x = k then (if k \<in> fst ` set d then Some v else None) else map_of d x)"
proof (induction d)
  case Nil
  show ?case by simp
next
  case (Cons a d)
  obtain k' v' where a: "a = (k', v')" by (cases a)
  show ?case
  proof (cases "k' = k")
    case True
    then show ?thesis using Cons a by simp
  next
    case False
    then show ?thesis using Cons a by (cases "x = k") auto
  qed
qed

lemma map_of_dict_set: "map_of (dict_set k v d) = (map_of d)(k \<mapsto> v)"
proof (cases "k \<in> fst ` set d")
  case True
  then show ?thesis by (simp add: dict_set_def map_of_replace fun_eq_iff)
next
  case False
  then have "map_of d k = None" by (simp add: map_of_eq_None_iff)
  then show ?thesis using False
    by (auto simp: dict_set_def map_add_def fun_eq_iff split: option.splits)
qed

lemma keys_dict_set:
  "map fst (dict_set k v d) = (if k \<in> fst ` set d then map fst d else map fst d @ [k])"
  by (auto simp: dict_set_def split: prod.splits)

lemma distinct_dict_set: "distinct (map fst d) \<Longrightarrow> distinct (map fst (dict_set k v d))"
  by (auto simp: keys_dict_set)

lemma set_dict_set: "set (dict_set k v d) \<subseteq> insert (k, v) (set d)"
  by (auto simp: dict_set_def split: if_splits)

lemma parse_line_relatedTo: "parse_line mts obj l = Ok obj' \<Longrightarrow> relatedTo obj' = relatedTo obj"
  by (auto simp: parse_line_def Let_def
      split: if_splits list.splits res.splits option.splits tagval.splits prod.splits)

lemma parse_lines_relatedTo: "parse_lines mts obj ls = Ok obj' \<Longrightarrow> relatedTo obj' = relatedTo obj"
  by (induction ls arbitrary: obj) (auto split: res.splits dest: parse_line_relatedTo)

lemma new_object_fresh: "new_object mts block = Ok (i, obj) \<Longrightarrow> relatedTo obj = [] \<and> get_id obj = Ok (Single i)"
  by (auto simp: new_object_def ParseStanza_def OBOObject_new_def get_id_def
      split: res.splits tagval.splits option.splits dest: parse_lines_relatedTo)

lemma parse_block_fresh:
  "parse_block mts ont block = Ok ont' \<Longrightarrow> fresh_terms (terms ont) \<Longrightarrow> fresh_terms (terms ont')"
  unfolding fresh_terms_def parse_block_def
  using set_dict_set
  by (fastforce split: if_splits res.splits prod.splits dest: new_object_fresh intro: distinct_dict_set)

lemma parse_blocks_fresh:
  "for_each (parse_block mts) ont blocks = Ok ont' \<Longrightarrow> fresh_terms (terms ont) \<Longrightarrow> fresh_terms (terms ont')"
  by (induction blocks arbitrary: ont) (auto split: res.splits dest: parse_block_fresh)

lemma same_objects_refl: "same_objects ts ts"
  by (simp add: same_objects_def option.rel_refl)

lemma same_objects_trans: "same_objects a b \<Longrightarrow> same_objects b c \<Longrightarrow> same_objects a c"
  unfolding same_objects_def
proof (intro allI)
  fix k
  let ?R = "\<lambda>t t'. obj_lines t' = obj_lines t \<and> obj_values t' = obj_values t \<and> related t' = related t"
  assume ab: "\<forall>k. rel_option ?R (map_of a k) (map_of b k)"
    and bc: "\<forall>k. rel_option ?R (map_of b k) (map_of c k)"
  from ab [rule_format, of k] bc [rule_format, of k]
  show "rel_option ?R (map_of a k) (map_of c k)"
    by (cases "map_of a k"; cases "map_of b k"; cases "map_of c k") auto
qed

lemma add_reverse_effect:
  assumes "add_reverse i ts e = Ok ts'"
  shows "same_objects ts ts' \<and>
         (\<forall>q. reverse_edges ts' q = reverse_edges ts q \<union> {(ty, i) |ty. [ty, q] = e})"
proof -
  from assms obtain ty p obj where e: "e = [ty, p]" and obj: "map_of ts p = Some obj"
    and ts': "ts' = dict_set p (obj\<lparr>relatedTo := set_add (ty, i) (relatedTo obj)\<rparr>) ts"
    by (auto simp: add_reverse_def split: list.splits option.splits)
  have "same_objects ts ts'"
    using obj by (auto simp: same_objects_def ts' map_of_dict_set option.rel_refl)
  moreover have "reverse_edges ts' q = reverse_edges ts q \<union> {(ty', i) |ty'. [ty', q] = e}" for q
    using obj by (auto simp: reverse_edges_def ts' map_of_dict_set e set_add_def split: option.splits)
  ultimately show ?thesis by blast
qed

lemma for_each_add_reverse:
  "for_each (add_reverse i) ts es = Ok ts' \<Longrightarrow>
     same_objects ts ts' \<and>
     (\<forall>q. reverse_edges ts' q = reverse_edges ts q \<union> {(ty, i) |ty. [ty, q] \<in> set es})"
proof (induction es arbitrary: ts)
  case Nil
  then show ?case by (simp add: same_objects_refl)
next
  case (Cons e es)
  from Cons.prems obtain ts1 where 1: "add_reverse i ts e = Ok ts1"
    and 2: "for_each (add_reverse i) ts1 es = Ok ts'"
    by (auto split: res.splits)
  from add_reverse_effect [OF 1] Cons.IH [OF 2] show ?case
    by (auto intro: same_objects_trans)
qed

lemma for_each_invert_term:
  "for_each invert_term ts items = Ok ts' \<Longrightarrow>
     same_objects ts ts' \<and>
     (\<forall>q. reverse_edges ts' q =
          reverse_edges ts q \<union> {(ty, i) |ty i. \<exists>t. (i, t) \<in> set items \<and> [ty, q] \<in> set (related t)})"
proof (induction items arbitrary: ts)
  case Nil
  then show ?case by (simp add: same_objects_refl)
next
  case (Cons item items)
  from Cons.prems obtain ts1 where 0: "invert_term ts item = Ok ts1"
    and 2: "for_each invert_term ts1 items = Ok ts'"
    by (auto split: res.splits)
  from 0 have 1: "for_each (add_reverse (fst item)) ts (related (snd item)) = Ok ts1"
    by (simp add: invert_term_def)
  from for_each_add_reverse [OF 1] have s1: "same_objects ts ts1"
    and r1: "\<And>q. reverse_edges ts1 q = reverse_edges ts q \<union> {(ty, fst item) |ty. [ty, q] \<in> set (related (snd item))}"
    by blast+
  from Cons.IH [OF 2] have s2: "same_objects ts1 ts'"
    and r2: "\<And>q. reverse_edges ts' q = reverse_edges ts1 q
          \<union> {(ty, i) |ty i. \<exists>t. (i, t) \<in> set items \<and> [ty, q] \<in> set (related t)}"
    by blast+
  have "reverse_edges ts' q = reverse_edges ts q
          \<union> {(ty, i) |ty i. \<exists>t. (i, t) \<in> set (item # items) \<and> [ty, q] \<in> set (related t)}" for q
    unfolding r2 r1 by (cases item) auto
  with same_objects_trans [OF s1 s2] show ?case by blast
qed

text \<open>
  Claim C6. After \<open>ParseFile\<close> has completed, the reverse edges are the transpose of the
  forward edges: for two terms of the graph, \<open>(type, parent)\<close> is in \<open>term.related\<close> if and
  only if \<open>(type, term.id)\<close> is in \<open>terms[parent].relatedTo\<close>. The graph is the one the
  constructor \<open>Ontology(file)\<close> builds, from empty dictionaries; that the call completes
  means that every edge is a pair whose target is a term of the graph. \<open>i\<close> is the key of
  the term and, as the first conjunct says, its id.
\<close>

theorem ParseFile_reverse_is_transpose:
  assumes "Ontology_init mts data = Ok ont"
    and "map_of (terms ont) i = Some t"
    and "map_of (terms ont) parent = Some p"
  shows "get_id t = Ok (Single i) \<and>
         ((typeId, i) \<in> set (relatedTo p)) = ([typeId, parent] \<in> set (related t))"
proof -
  from assms(1) obtain ont1 ts where
    1: "for_each (parse_block mts) Ontology_new (builtinOBOObjects @ data) = Ok ont1"
    and 2: "for_each invert_term (terms ont1) (terms ont1) = Ok ts"
    and ont: "ont = ont1\<lparr>terms := ts\<rparr>"
    by (auto simp: Ontology_init_def ParseFile_def split: res.splits)
  have "fresh_terms (terms Ontology_new)" by (simp add: fresh_terms_def Ontology_new_def)
  with 1 have fresh: "fresh_terms (terms ont1)" by (rule parse_blocks_fresh)
  from for_each_invert_term [OF 2] have same: "same_objects (terms ont1) ts"
    and rev: "\<And>q. reverse_edges ts q = reverse_edges (terms ont1) q
        \<union> {(ty, i) |ty i. \<exists>t. (i, t) \<in> set (terms ont1) \<and> [ty, q] \<in> set (related t)}"
    by blast+
  have ts: "map_of ts i = Some t" "map_of ts parent = Some p" using assms(2,3) ont by simp_all
  from same have "rel_option (\<lambda>t t'. obj_lines t' = obj_lines t \<and> obj_values t' = obj_values t
                                \<and> related t' = related t) (map_of (terms ont1) i) (map_of ts i)"
    by (simp add: same_objects_def)
  with ts(1) obtain t0 where t0: "map_of (terms ont1) i = Some t0"
    and t: "obj_values t = obj_values t0" "related t = related t0"
    by (cases "map_of (terms ont1) i") auto
  from same have "rel_option (\<lambda>t t'. obj_lines t' = obj_lines t \<and> obj_values t' = obj_values t
                                \<and> related t' = related t) (map_of (terms ont1) parent) (map_of ts parent)"
    by (simp add: same_objects_def)
  with ts(2) obtain p0 where p0: "map_of (terms ont1) parent = Some p0"
    by (cases "map_of (terms ont1) parent") auto
  have d: "distinct (map fst (terms ont1))" using fresh by (simp add: fresh_terms_def)
  have "(i, t0) \<in> set (terms ont1)" using t0 by (rule map_of_SomeD)
  then have id0: "get_id t0 = Ok (Single i)" using fresh by (auto simp: fresh_terms_def)
  have "get_id t = get_id t0" using t by (simp add: get_id_def)
  then have id: "get_id t = Ok (Single i)" using id0 by simp
  have "(parent, p0) \<in> set (terms ont1)" using p0 by (rule map_of_SomeD)
  then have "relatedTo p0 = []" using fresh by (auto simp: fresh_terms_def)
  then have e0: "reverse_edges (terms ont1) parent = {}" using p0 by (simp add: reverse_edges_def)
  have rel: "related t = related t0" using t by simp
  have "((typeId, i) \<in> set (relatedTo p)) = ((typeId, i) \<in> reverse_edges ts parent)"
    using ts(2) by (simp add: reverse_edges_def)
  also have "\<dots> = (\<exists>t'. (i, t') \<in> set (terms ont1) \<and> [typeId, parent] \<in> set (related t'))"
    by (simp add: rev e0)
  also have "\<dots> = ([typeId, parent] \<in> set (related t0))"
    using d t0 by (auto dest: map_of_SomeD eq_key_imp_eq_value)
  finally show ?thesis using id rel by simp
qed

lemma Ontology_init_two_stanzas: "(case Ontology_init {''is_a'', ''relationship''} [stanza_A, stanza_R] of
     Err e \<Rightarrow> False
   | Ok ont \<Rightarrow>
      (case map_of (terms ont) ''A'' of
         None \<Rightarrow> False
       | Some t \<Rightarrow>
          (case map_of (terms ont) ''R'' of
             None \<Rightarrow> False
           | Some p \<Rightarrow> related t = [[''is_a'', ''R'']] \<and> relatedTo p = [(''is_a'', ''A'')])))"
  by code_simp

theorem ParseFile_reverse_is_transpose_witness: "\<exists>ont t p. Ontology_init {''is_a'', ''relationship''} [stanza_A, stanza_R] = Ok ont
    \<and> map_of (terms ont) ''A'' = Some t \<and> map_of (terms ont) ''R'' = Some p
    \<and> get_id t = Ok (Single ''A'')
    \<and> (''is_a'', ''A'') \<in> set (relatedTo p) \<and> [''is_a'', ''R''] \<in> set (related t)"
proof -
  from Ontology_init_two_stanzas obtain ont t p where
    o: "Ontology_init {''is_a'', ''relationship''} [stanza_A, stanza_R] = Ok ont"
    and t: "map_of (terms ont) ''A'' = Some t" and p: "map_of (terms ont) ''R'' = Some p"
    and r: "related t = [[''is_a'', ''R'']]"
    by (auto split: res.splits option.splits)
  from ParseFile_reverse_is_transpose [OF o t p, of "''is_a''"] r o t p show ?thesis by auto
qed

text \<open>
  The second loop of \<open>ParseFile\<close> completes exactly when it can: if every edge of every
  parsed term is a pair whose target is a parsed term, no lookup and no unpacking fails.
\<close>

lemma same_objects_keys: "same_objects ts ts' \<Longrightarrow> (map_of ts' k = None) = (map_of ts k = None)"
  unfolding same_objects_def
proof -
  assume "\<forall>k. rel_option (\<lambda>t t'. obj_lines t' = obj_lines t \<and> obj_values t' = obj_values t
                                \<and> related t' = related t) (map_of ts k) (map_of ts' k)"
  then have "rel_option (\<lambda>t t'. obj_lines t' = obj_lines t \<and> obj_values t' = obj_values t
                                \<and> related t' = related t) (map_of ts k) (map_of ts' k)" ..
  then show ?thesis by (cases "map_of ts k"; cases "map_of ts' k") auto
qed

lemma add_reverse_completes:
  assumes "map_of ts parent \<noteq> None"
  shows "\<exists>ts'. add_reverse i ts [typeId, parent] = Ok ts'"
  using assms by (auto simp: add_reverse_def)

lemma for_each_add_reverse_completes:
  "\<forall>e\<in>set es. \<exists>ty p. e = [ty, p] \<and> map_of ts p \<noteq> None \<Longrightarrow>
   \<exists>ts'. for_each (add_reverse i) ts es = Ok ts'"
proof (induction es arbitrary: ts)
  case Nil
  then show ?case by simp
next
  case (Cons e es)
  from Cons.prems obtain ty p where e: "e = [ty, p]" and p: "map_of ts p \<noteq> None" by auto
  from add_reverse_completes [OF p, of i ty] obtain ts1 where 1: "add_reverse i ts [ty, p] = Ok ts1" ..
  from add_reverse_effect [OF 1] have "same_objects ts ts1" ..
  then have "\<forall>e\<in>set es. \<exists>ty p. e = [ty, p] \<and> map_of ts1 p \<noteq> None"
    using Cons.prems by (auto simp: same_objects_keys)
  from Cons.IH [OF this] show ?case using 1 e by simp
qed

lemma invert_terms_completes:
  "\<forall>item\<in>set items. \<forall>e\<in>set (related (snd item)). \<exists>ty p. e = [ty, p] \<and> map_of ts p \<noteq> None \<Longrightarrow>
   \<exists>ts'. for_each invert_term ts items = Ok ts'"
proof (induction items arbitrary: ts)
  case Nil
  then show ?case by simp
next
  case (Cons item items)
  have "\<forall>e\<in>set (related (snd item)). \<exists>ty p. e = [ty, p] \<and> map_of ts p \<noteq> None"
    using Cons.prems by simp
  from for_each_add_reverse_completes [OF this, of "fst item"]
  obtain ts1 where 1: "for_each (add_reverse (fst item)) ts (related (snd item)) = Ok ts1" ..
  from for_each_add_reverse [OF 1] have "same_objects ts ts1" ..
  then have "\<forall>item\<in>set items. \<forall>e\<in>set (related (snd item)). \<exists>ty p. e = [ty, p] \<and> map_of ts1 p \<noteq> None"
    using Cons.prems by (auto simp: same_objects_keys)
  from Cons.IH [OF this] show ?case using 1 by (simp add: invert_term_def)
qed

lemma ParseFile_completes:
  assumes "for_each (parse_block mts) ont (builtinOBOObjects @ data) = Ok ont1"
    and "\<forall>item\<in>set (terms ont1). \<forall>e\<in>set (related (snd item)).
           \<exists>ty p. e = [ty, p] \<and> map_of (terms ont1) p \<noteq> None"
  shows "\<exists>ont'. ParseFile mts ont data = Ok ont'"
  using assms(1) invert_terms_completes [OF assms(2)] by (auto simp: ParseFile_def)

section \<open>The FDR values in the result of the widget\<close>

lemma length_running_min: "length (running_min xs) = length xs"
  by (induction xs rule: running_min.induct) (auto simp: Let_def)

lemma length_step_up: "length (step_up ps) = length ps"
  by (simp add: step_up_def length_running_min)

lemma length_FDR: "length (FDR ps) = length ps"
  by (simp add: FDR_def Let_def length_step_up)

lemma dict_set_present:
  assumes "k \<notin> fst ` set pre" and "k \<notin> fst ` set post"
  shows "dict_set k v (pre @ (k, d) # post) = pre @ (k, v) # post"
proof -
  have 1: "map (\<lambda>(k', v'). if k' = k then (k', v) else (k', v')) pre = pre"
    using assms(1) by (induction pre) auto
  have 2: "map (\<lambda>(k', v'). if k' = k then (k', v) else (k', v')) post = post"
    using assms(2) by (induction post) auto
  show ?thesis by (simp add: dict_set_def 1 2)
qed

lemma store_fdr_loop:
  "distinct (map fst (pre @ ts)) \<Longrightarrow> length fs = length ts \<Longrightarrow>
   for_each store_fdr (pre @ ts) (zip (map fst ts) fs)
     = Ok (pre @ map (\<lambda>(item, f). (fst item, append_value (snd item) f)) (zip ts fs))"
proof (induction ts arbitrary: pre fs)
  case Nil
  then show ?case by simp
next
  case (Cons item ts)
  obtain k d where item: "item = (k, d)" by (cases item)
  from Cons.prems(2) obtain f fs' where fs: "fs = f # fs'" "length fs' = length ts"
    by (cases fs) auto
  have k1: "k \<notin> fst ` set pre" and k2: "k \<notin> fst ` set ts"
    using Cons.prems(1) item by auto
  have "map_of pre k = None" using k1 by (simp add: map_of_eq_None_iff)
  then have look: "map_of (pre @ (k, d) # ts) k = Some d"
    by (simp add: map_add_def)
  have step: "store_fdr (pre @ item # ts) (k, f) = Ok ((pre @ [(k, append_value d f)]) @ ts)"
    using look by (simp add: store_fdr_def item dict_set_present [OF k1 k2])
  have dist: "distinct (map fst ((pre @ [(k, append_value d f)]) @ ts))"
    using Cons.prems(1) item by auto
  from Cons.IH [OF dist fs(2)] step show ?case by (simp add: item fs)
qed

lemma keys_after_append:
  "length fs = length ts \<Longrightarrow>
   map fst (map (\<lambda>(item, f). (fst item, append_value (snd item) f)) (zip ts fs)) = map fst ts"
  by (induction ts fs rule: list_induct2') auto

text \<open>
  Claim C8. After the enrichment, every tested term gets the FDR value of its p-value,
  computed by the step-up procedure over the p-values of all tested terms, appended to
  its tuple: \<open>(genes, p, refCount)\<close> becomes \<open>(genes, p, refCount, fdr)\<close>. \<open>ts\<close> is the
  dictionary \<open>get_enriched_terms\<close> returned, in the order \<open>items()\<close> lists it; the term at
  position \<open>k\<close> receives the value \<open>FDR\<close> returns at position \<open>k\<close> for the list of all
  p-values, and the keys of the dictionary stay as they are.
\<close>

theorem Enrichment_fdr_appends:
  assumes "distinct (map fst ts)"
    and "k < length ts"
    and "ts ! k = (t, genes, p, refCount, [])"
  shows "\<exists>ts'. Enrichment_fdr FDR ts = Ok ts' \<and> map fst ts' = map fst ts \<and>
           map_of ts' t = Some (genes, p, refCount, [FDR (map (\<lambda>item. pval (snd item)) ts) ! k])"
proof -
  let ?fs = "FDR (map (\<lambda>item. pval (snd item)) ts)"
  let ?ts' = "map (\<lambda>(item, f). (fst item, append_value (snd item) f)) (zip ts ?fs)"
  have len: "length ?fs = length ts" by (simp add: length_FDR)
  have run: "Enrichment_fdr FDR ts = Ok ?ts'"
    using store_fdr_loop [of "[]" ts ?fs] assms(1) len by (simp add: Enrichment_fdr_def Let_def)
  have keys: "map fst ?ts' = map fst ts"
    using len by (rule keys_after_append)
  have "?ts' ! k = (t, genes, p, refCount, [?fs ! k])"
    using assms(2,3) len by (simp add: append_value_def)
  moreover have "k < length ?ts'" using assms(2) len by simp
  ultimately have "(t, genes, p, refCount, [?fs ! k]) \<in> set ?ts'"
    using nth_mem [of k ?ts'] by simp
  moreover have "distinct (map fst ?ts')" using keys assms(1) by simp
  ultimately have "map_of ?ts' t = Some (genes, p, refCount, [?fs ! k])" by (rule map_of_is_SomeI [rotated])
  with run keys show ?thesis by blast
qed

lemma FDR_two_values: "FDR [1 / 100, 1 / 25 :: rat] = [1 / 50, 1 / 25]"
  by (simp add: FDR_def step_up_def Let_def)

theorem Enrichment_fdr_appends_witness:
  "distinct (map fst ex_terms) \<and> 0 < length ex_terms \<and> ex_terms ! 0 = (''a'', [''g''], 1 / 100, 1, []) \<and>
   (\<exists>ts'. Enrichment_fdr FDR ex_terms = Ok ts' \<and> map fst ts' = [''a'', ''b''] \<and>
      map_of ts' ''a'' = Some ([''g''], 1 / 100, 1, [1 / 50]))"
proof -
  have d: "distinct (map fst ex_terms)" and l: "0 < length ex_terms"
    and n: "ex_terms ! 0 = (''a'', [''g''], 1 / 100, 1, [])"
    by (simp_all add: ex_terms_def)
  have f: "FDR (map (\<lambda>item. pval (snd item)) ex_terms) = [1 / 50, 1 / 25]"
    by (simp add: ex_terms_def pval_def FDR_two_values)
  from Enrichment_fdr_appends [OF d l n] d l n show ?thesis
    by (simp add: f) (simp add: ex_terms_def)
qed

text \<open>
  The running minimum from the largest rank down: the value at a rank is the least of
  the scaled values at that rank and above.
\<close>

lemma running_min_nth:
  "i < length xs \<Longrightarrow> running_min xs ! i = Min (set (drop i xs))"
proof (induction xs arbitrary: i rule: running_min.induct)
  case 1
  then show ?case by simp
next
  case (2 x)
  then show ?case by simp
next
  case (3 x y ys)
  have hd: "hd (running_min (y # ys)) = Min (set (y # ys))"
    using "3.IH" [of 0] by (simp add: hd_conv_nth length_running_min flip: length_greater_0_conv)
  show ?case
  proof (cases i)
    case 0
    then show ?thesis using hd by (simp add: Let_def)
  next
    case (Suc j)
    then show ?thesis using "3.IH" [of j] "3.prems" by (simp add: Let_def)
  qed
qed

section \<open>Lookups of ids that are not in the graph\<close>

text \<open>
  The cache gets entries for terms of the graph only: \<open>_CollectAnnotations\<close> stores an
  entry after \<open>self.ontology[id]\<close> has succeeded, and the other two writers overwrite
  an entry that is there.
\<close>

lemma cache_in_graph_empty: "allAnnotations st = Map.empty \<Longrightarrow> cache_in_graph ont st"
  by (simp add: cache_in_graph_def)

lemma collect_children_cache:
  assumes "\<And>st c. cache_in_graph ont st \<Longrightarrow> cache_in_graph ont (snd (rec st c))"
  shows "cache_in_graph ont st \<Longrightarrow> cache_in_graph ont (snd (collect_children rec st acc cs))"
proof (induction cs arbitrary: st acc)
  case Nil
  then show ?case by simp
next
  case (Cons c cs)
  obtain typeId child where c: "c = (typeId, child)" by (cases c)
  obtain r st1 where 1: "rec st child = (r, st1)" by (cases "rec st child")
  have "cache_in_graph ont st1" using assms [OF Cons.prems, of child] 1 by simp
  then show ?case using 1 Cons.IH
    by (simp add: c split: res.splits cache_entry.splits)
qed

lemma CollectAnnotations_cache:
  "cache_in_graph ont st \<Longrightarrow> cache_in_graph ont (snd (CollectAnnotations n ont st i))"
proof (induction n arbitrary: st i)
  case 0
  then show ?case by simp
next
  case (Suc n)
  let ?s = "st\<lparr>termAnnotations := dd_touch (termAnnotations st) i\<rparr>"
  have s: "cache_in_graph ont ?s" using Suc.prems by (simp add: cache_in_graph_def)
  show ?case
  proof (cases "allAnnotations st i")
    case (Some e)
    then show ?thesis using Suc.prems by simp
  next
    case None
    show ?thesis
    proof (cases "Ontology_getitem ont i")
      case (Err e)
      then show ?thesis using None s by (simp add: Let_def)
    next
      case (Ok t)
      then have present: "map_of (terms ont) i \<noteq> None"
        by (simp add: Ontology_getitem_def split: option.splits)
      obtain r st2 where 1: "collect_children (CollectAnnotations n ont) ?s [ListOf i] (relatedTo t) = (r, st2)"
        by (cases "collect_children (CollectAnnotations n ont) ?s [ListOf i] (relatedTo t)")
      have "cache_in_graph ont st2"
        using collect_children_cache [of ont "CollectAnnotations n ont", OF Suc.IH s, of "[ListOf i]" "relatedTo t"] 1
        by simp
      then show ?thesis using None Ok 1 present
        by (cases r) (auto simp: Let_def cache_in_graph_def)
    qed
  qed
qed

lemma CollectAnnotations_Ok_cached:
  assumes "CollectAnnotations n ont st i = (Ok e, st1)"
  shows "allAnnotations st1 i = Some e"
proof (cases n)
  case 0
  then show ?thesis using assms by simp
next
  case (Suc m)
  show ?thesis
  proof (cases "allAnnotations st i")
    case (Some e')
    then show ?thesis using assms Suc by simp
  next
    case None
    let ?s = "st\<lparr>termAnnotations := dd_touch (termAnnotations st) i\<rparr>"
    show ?thesis
    proof (cases "Ontology_getitem ont i")
      case (Err x)
      then show ?thesis using assms Suc None by (simp add: Let_def)
    next
      case (Ok t)
      obtain r st2 where 1: "collect_children (CollectAnnotations m ont) ?s [ListOf i] (relatedTo t) = (r, st2)"
        by (cases "collect_children (CollectAnnotations m ont) ?s [ListOf i] (relatedTo t)")
      show ?thesis using assms Suc None Ok 1 by (cases r) (auto simp: Let_def)
    qed
  qed
qed

lemma GetAllAnnotations_unfold:
  "GetAllAnnotations n ont st i =
     (case allAnnotations st i of
        Some (Reduced s) \<Rightarrow> (Ok s, st)
      | _ \<Rightarrow>
          (case CollectAnnotations n ont st i of
             (Err e, st1) \<Rightarrow> (Err e, st1)
           | (Ok (Reduced s), st1) \<Rightarrow> (Err TypeError, st1)
           | (Ok (RawList chunks), st1) \<Rightarrow>
               (Ok (foldl (\<lambda>acc ch. set_update acc (chunk_items st1 ch)) [] chunks),
                st1\<lparr>allAnnotations := (allAnnotations st1)
                       (i \<mapsto> Reduced (foldl (\<lambda>acc ch. set_update acc (chunk_items st1 ch)) [] chunks))\<rparr>)))"
  by (simp add: GetAllAnnotations_def Let_def
      split: option.splits cache_entry.splits res.splits prod.splits)

lemma GetAllAnnotations_cases:
  obtains (hit) s where "allAnnotations st i = Some (Reduced s)" "GetAllAnnotations n ont st i = (Ok s, st)"
  | (err) e st1 where "CollectAnnotations n ont st i = (Err e, st1)" "GetAllAnnotations n ont st i = (Err e, st1)"
  | (bad) s st1 where "CollectAnnotations n ont st i = (Ok (Reduced s), st1)"
      "GetAllAnnotations n ont st i = (Err TypeError, st1)"
  | (new) chunks st1 where "CollectAnnotations n ont st i = (Ok (RawList chunks), st1)"
      "GetAllAnnotations n ont st i =
         (Ok (foldl (\<lambda>acc ch. set_update acc (chunk_items st1 ch)) [] chunks),
          st1\<lparr>allAnnotations := (allAnnotations st1)
                 (i \<mapsto> Reduced (foldl (\<lambda>acc ch. set_update acc (chunk_items st1 ch)) [] chunks))\<rparr>)"
proof -
  obtain r st1 where 1: "CollectAnnotations n ont st i = (r, st1)"
    by (cases "CollectAnnotations n ont st i")
  show thesis
  proof (cases "\<exists>s. allAnnotations st i = Some (Reduced s)")
    case True
    then obtain s where "allAnnotations st i = Some (Reduced s)" by blast
    then show thesis using hit by (simp add: GetAllAnnotations_unfold)
  next
    case False
    then have g: "GetAllAnnotations n ont st i =
          (case CollectAnnotations n ont st i of
             (Err e, st1) \<Rightarrow> (Err e, st1)
           | (Ok (Reduced s), st1) \<Rightarrow> (Err TypeError, st1)
           | (Ok (RawList chunks), st1) \<Rightarrow>
               (Ok (foldl (\<lambda>acc ch. set_update acc (chunk_items st1 ch)) [] chunks),
                st1\<lparr>allAnnotations := (allAnnotations st1)
                       (i \<mapsto> Reduced (foldl (\<lambda>acc ch. set_update acc (chunk_items st1 ch)) [] chunks))\<rparr>))"
      by (subst GetAllAnnotations_unfold) (simp split: option.splits cache_entry.splits)
    show thesis
    proof (cases r)
      case (Err e)
      then show thesis using err 1 g by simp
    next
      case (Ok entry)
      then show thesis using bad new 1 g by (cases entry) simp_all
    qed
  qed
qed

lemma GetAllAnnotations_cache:
  assumes "cache_in_graph ont st"
  shows "cache_in_graph ont (snd (GetAllAnnotations n ont st i))"
proof (cases rule: GetAllAnnotations_cases [of st i n ont])
  case (hit s)
  then show ?thesis using assms by simp
next
  case (err e st1)
  then show ?thesis using CollectAnnotations_cache [OF assms, of n i] by simp
next
  case (bad s st1)
  then show ?thesis using CollectAnnotations_cache [OF assms, of n i] by simp
next
  case (new chunks st1)
  have c1: "cache_in_graph ont st1" using CollectAnnotations_cache [OF assms, of n i] new(1) by simp
  have "allAnnotations st1 i = Some (RawList chunks)" using new(1) by (rule CollectAnnotations_Ok_cached)
  then have "map_of (terms ont) i \<noteq> None" using c1 by (simp add: cache_in_graph_def)
  then show ?thesis using new(2) c1 by (simp add: cache_in_graph_def)
qed

lemma GetAllAnnotations_Ok_cached:
  assumes "GetAllAnnotations n ont st i = (Ok s, st1)"
  shows "allAnnotations st1 i = Some (Reduced s)"
  using assms by (cases rule: GetAllAnnotations_cases [of st i n ont]) auto

lemma enrich_term_cache:
  assumes "cache_in_graph ont (snd rs)"
  shows "cache_in_graph ont (snd (enrich_term pv n ont rgd genes reference refAnn rs t))"
proof -
  obtain r st1 where 1: "GetAllAnnotations n ont (snd rs) t = (r, st1)"
    by (cases "GetAllAnnotations n ont (snd rs) t")
  have c1: "cache_in_graph ont st1" using GetAllAnnotations_cache [OF assms, of n t] 1 by simp
  show ?thesis
  proof (cases r)
    case (Err e)
    then show ?thesis using 1 c1 by (simp add: enrich_term_def)
  next
    case (Ok s)
    then have "allAnnotations st1 t = Some (Reduced s)"
      using 1 GetAllAnnotations_Ok_cached by simp
    then have p: "map_of (terms ont) t \<noteq> None" using c1 by (simp add: cache_in_graph_def)
    have c2: "cache_in_graph ont (st1\<lparr>allAnnotations := (allAnnotations st1)(t \<mapsto> e)\<rparr>)" for e
      using c1 p by (simp add: cache_in_graph_def)
    show ?thesis using 1 Ok c2 by (simp add: enrich_term_def Let_def split: res.splits)
  qed
qed

lemma enrich_loop_cache:
  assumes "\<And>rs t. cache_in_graph ont (snd rs) \<Longrightarrow> cache_in_graph ont (snd (body rs t))"
  shows "cache_in_graph ont (snd rs) \<Longrightarrow> cache_in_graph ont (snd (enrich_loop body rs ts))"
proof (induction ts arbitrary: rs)
  case Nil
  then show ?case by simp
next
  case (Cons t ts)
  obtain r st1 where 1: "body rs t = (r, st1)" by (cases "body rs t")
  have "cache_in_graph ont st1" using assms [OF Cons.prems, of t] 1 by simp
  then show ?case using 1 Cons.IH [of "(_, st1)"] by (simp split: res.splits)
qed

lemma GetEnrichedTerms_cases:
  assumes "GetEnrichedTerms pop pv ek n ont st genes0 reference0 ev0 aspect = Some (r, st')"
  obtains (err) e g where "r = Err e" "st' = st\<lparr>geneAnnotations := g\<rparr>"
  | (run) ts g refAnn where
      "(r, st') = enrich_loop (enrich_term pv n ont (GetGeneNamesTranslator st genes0)
                     (map fst (GetGeneNamesTranslator st genes0)) (reference_of st reference0) refAnn)
                   ([], st\<lparr>geneAnnotations := g\<rparr>) ts"
proof -
  let ?keys = "remdups (map GO_ID (select_annotations (geneAnnotations st)
        (map fst (GetGeneNamesTranslator st genes0))
        (case ev0 of None \<Rightarrow> remdups ek | Some c \<Rightarrow> if c = [] then remdups ek else remdups c) aspect))"
  show thesis
  proof (cases "ExtractSuperGraph pop ont ?keys")
    case None
    then show thesis using assms by (simp add: GetEnrichedTerms_def Let_def)
  next
    case (Some x)
    show thesis
    proof (cases x)
      case (Err e)
      with assms Some have "r = Err e \<and> st' = st\<lparr>geneAnnotations :=
              touch_all (touch_all (geneAnnotations st) (map fst (GetGeneNamesTranslator st genes0)))
                (reference_of st reference0)\<rparr>"
        by (auto simp: GetEnrichedTerms_def Let_def reference_of_def)
      then show thesis using err by blast
    next
      case (Ok ts)
      let ?genes = "map fst (GetGeneNamesTranslator st genes0)"
      let ?ev = "case ev0 of None \<Rightarrow> remdups ek | Some c \<Rightarrow> if c = [] then remdups ek else remdups c"
      let ?g1 = "touch_all (geneAnnotations st) ?genes"
      from assms Some Ok have "(r, st') =
            enrich_loop (enrich_term pv n ont (GetGeneNamesTranslator st genes0)
                     ?genes (reference_of st reference0)
                     (remdups (select_annotations ?g1 (reference_of st reference0) ?ev aspect)))
                   ([], st\<lparr>geneAnnotations := touch_all ?g1 (reference_of st reference0)\<rparr>) ts"
        by (simp add: GetEnrichedTerms_def Let_def reference_of_def)
      then show thesis by (rule run)
    qed
  qed
qed

lemma GetEnrichedTerms_cache:
  assumes "cache_in_graph ont st"
    and "GetEnrichedTerms pop pv ek n ont st genes0 reference0 ev0 aspect = Some (r, st')"
  shows "cache_in_graph ont st'"
  using assms(2)
proof (cases rule: GetEnrichedTerms_cases)
  case (err e g)
  then show ?thesis using assms(1) by (simp add: cache_in_graph_def)
next
  case (run ts g refAnn)
  have "cache_in_graph ont (snd (enrich_loop (enrich_term pv n ont (GetGeneNamesTranslator st genes0)
                     (map fst (GetGeneNamesTranslator st genes0)) (reference_of st reference0) refAnn)
                   ([], st\<lparr>geneAnnotations := g\<rparr>) ts))"
  proof (rule enrich_loop_cache)
    show "cache_in_graph ont (snd ([], st\<lparr>geneAnnotations := g\<rparr>))"
      using assms(1) by (simp add: cache_in_graph_def)
  qed (rule enrich_term_cache)
  then show ?thesis by (simp add: run [symmetric])
qed

text \<open>The key a failed lookup adds to \<open>termAnnotations\<close> changes no later result.\<close>

lemma dd_get_touch: "dd_get (dd_touch d k) t = dd_get d t"
  by (simp add: dd_get_def dd_touch_def split: option.splits)

lemma same_reads_refl: "same_reads st st"
  by (simp add: same_reads_def)

lemma same_reads_touch:
  "same_reads st st' \<Longrightarrow>
   same_reads (st\<lparr>termAnnotations := dd_touch (termAnnotations st) i\<rparr>)
              (st'\<lparr>termAnnotations := dd_touch (termAnnotations st') i\<rparr>)"
  by (simp add: same_reads_def dd_get_touch)

lemma same_reads_cache:
  "same_reads st st' \<Longrightarrow>
   same_reads (st\<lparr>allAnnotations := (allAnnotations st)(i \<mapsto> e)\<rparr>)
              (st'\<lparr>allAnnotations := (allAnnotations st')(i \<mapsto> e)\<rparr>)"
  by (simp add: same_reads_def)

lemma collect_children_sim:
  assumes "keeps_reads rec"
  shows "same_reads st st' \<Longrightarrow>
     fst (collect_children rec st acc cs) = fst (collect_children rec st' acc cs) \<and>
     same_reads (snd (collect_children rec st acc cs)) (snd (collect_children rec st' acc cs))"
proof (induction cs arbitrary: st st' acc)
  case Nil
  then show ?case by simp
next
  case (Cons c cs)
  obtain typeId child where c: "c = (typeId, child)" by (cases c)
  obtain r st1 where 1: "rec st child = (r, st1)" by (cases "rec st child")
  obtain r' st1' where 2: "rec st' child = (r', st1')" by (cases "rec st' child")
  from assms Cons.prems 1 2 have eq: "r' = r" and sr: "same_reads st1 st1'"
    unfolding keeps_reads_def by (metis fst_conv, metis snd_conv)
  show ?case
  proof (cases r)
    case (Err e)
    then show ?thesis using 1 2 eq sr by (simp add: c)
  next
    case (Ok entry)
    then show ?thesis using 1 2 eq Cons.IH [OF sr] by (cases entry) (simp_all add: c)
  qed
qed

lemma CollectAnnotations_respects: "keeps_reads (CollectAnnotations n ont)"
proof (induction n)
  case 0
  show ?case by (simp add: keeps_reads_def)
next
  case (Suc n)
  show ?case
    unfolding keeps_reads_def
  proof (intro allI impI)
    fix st st' i
    assume sr: "same_reads st st'"
    then have cache: "allAnnotations st' = allAnnotations st" by (simp add: same_reads_def)
    show "fst (CollectAnnotations (Suc n) ont st i) = fst (CollectAnnotations (Suc n) ont st' i) \<and>
          same_reads (snd (CollectAnnotations (Suc n) ont st i)) (snd (CollectAnnotations (Suc n) ont st' i))"
    proof (cases "allAnnotations st i")
      case (Some e)
      then show ?thesis using sr cache by simp
    next
      case None
      let ?s = "st\<lparr>termAnnotations := dd_touch (termAnnotations st) i\<rparr>"
      let ?s' = "st'\<lparr>termAnnotations := dd_touch (termAnnotations st') i\<rparr>"
      have sr1: "same_reads ?s ?s'" using sr by (rule same_reads_touch)
      show ?thesis
      proof (cases "Ontology_getitem ont i")
        case (Err e)
        then show ?thesis using None cache sr1 by (simp add: Let_def)
      next
        case (Ok t)
        obtain r st2 where 1: "collect_children (CollectAnnotations n ont) ?s [ListOf i] (relatedTo t) = (r, st2)"
          by (cases "collect_children (CollectAnnotations n ont) ?s [ListOf i] (relatedTo t)")
        obtain r' st2' where 2: "collect_children (CollectAnnotations n ont) ?s' [ListOf i] (relatedTo t) = (r', st2')"
          by (cases "collect_children (CollectAnnotations n ont) ?s' [ListOf i] (relatedTo t)")
        from collect_children_sim [OF Suc sr1, of "[ListOf i]" "relatedTo t"] 1 2
        have eq: "r' = r" and sr2: "same_reads st2 st2'" by simp_all
        show ?thesis
        proof (cases r)
          case (Err e)
          then show ?thesis using None cache Ok 1 2 eq sr2 by (simp add: Let_def)
        next
          case (Ok chunks)
          then show ?thesis using None cache \<open>Ontology_getitem ont i = Ok t\<close> 1 2 eq
              same_reads_cache [OF sr2]
            by (simp add: Let_def)
        qed
      qed
    qed
  qed
qed

lemma chunk_items_same: "same_reads st st' \<Longrightarrow> chunk_items st' ch = chunk_items st ch"
  by (simp add: chunk_items_def same_reads_def split: chunk.splits)

lemma GetAllAnnotations_same_reads:
  assumes "same_reads st st'"
  shows "fst (GetAllAnnotations n ont st' j) = fst (GetAllAnnotations n ont st j)"
proof -
  from assms have cache: "allAnnotations st' = allAnnotations st" by (simp add: same_reads_def)
  obtain r st1 where 1: "CollectAnnotations n ont st j = (r, st1)"
    by (cases "CollectAnnotations n ont st j")
  obtain r' st1' where 2: "CollectAnnotations n ont st' j = (r', st1')"
    by (cases "CollectAnnotations n ont st' j")
  from CollectAnnotations_respects [of n ont] assms 1 2 have eq: "r' = r" and sr: "same_reads st1 st1'"
    unfolding keeps_reads_def by (metis fst_conv, metis snd_conv)
  have items: "chunk_items st1' = chunk_items st1"
    using chunk_items_same [OF sr] by (simp add: fun_eq_iff)
  show ?thesis
    using cache 1 2 eq items
    by (simp add: GetAllAnnotations_def Let_def split: option.splits cache_entry.splits res.splits)
qed

text \<open>
  Claim C9. Looking up an id that is absent from the graph raises KeyError, through
  \<open>Ontology[id]\<close> and through \<open>GetAllAnnotations(id)\<close>; no value is returned. The store is
  one whose cached ids are terms of the graph, as every store is that started with an
  empty cache and was used with this graph. The failed call leaves one trace: the
  \<open>defaultdict\<close> \<open>termAnnotations\<close> has gained the key with an empty list. The cache is
  untouched, and every later \<open>GetAllAnnotations\<close> returns what it would have returned
  without the failed call; the graph is not written by either lookup.
\<close>

theorem lookup_absent_id:
  assumes "map_of (terms ont) i = None"
    and "cache_in_graph ont st"
  shows "Ontology_getitem ont i = Err KeyError \<and>
         GetAllAnnotations (Suc n) ont st i
           = (Err KeyError, st\<lparr>termAnnotations := dd_touch (termAnnotations st) i\<rparr>) \<and>
         (\<forall>m j. fst (GetAllAnnotations m ont (st\<lparr>termAnnotations := dd_touch (termAnnotations st) i\<rparr>) j)
                = fst (GetAllAnnotations m ont st j))"
proof -
  have g: "Ontology_getitem ont i = Err KeyError" using assms(1) by (simp add: Ontology_getitem_def)
  have u: "allAnnotations st i = None"
    using assms by (cases "allAnnotations st i") (auto simp: cache_in_graph_def)
  have a: "GetAllAnnotations (Suc n) ont st i
           = (Err KeyError, st\<lparr>termAnnotations := dd_touch (termAnnotations st) i\<rparr>)"
    using u g by (simp add: GetAllAnnotations_def Let_def)
  have "same_reads st (st\<lparr>termAnnotations := dd_touch (termAnnotations st) i\<rparr>)"
    by (simp add: same_reads_def dd_get_touch)
  then have "fst (GetAllAnnotations m ont (st\<lparr>termAnnotations := dd_touch (termAnnotations st) i\<rparr>) j)
                = fst (GetAllAnnotations m ont st j)" for m j
    by (rule GetAllAnnotations_same_reads)
  with g a show ?thesis by blast
qed

theorem lookup_absent_id_witness:
  "map_of (terms ex_ontology) ''X'' = None \<and> cache_in_graph ex_ontology ex_store \<and>
   Ontology_getitem ex_ontology ''X'' = Err KeyError \<and>
   fst (GetAllAnnotations 5 ex_ontology ex_store ''X'') = Err KeyError \<and>
   fst (GetAllAnnotations 5 ex_ontology (snd (GetAllAnnotations 5 ex_ontology ex_store ''X'')) ''T'')
     = Ok [ann1, ann2]"
proof -
  have h1: "map_of (terms ex_ontology) ''X'' = None" by (simp add: ex_ontology_def)
  have h2: "cache_in_graph ex_ontology ex_store" by (simp add: cache_in_graph_def ex_store_def)
  have e: "fst (GetAllAnnotations 5 ex_ontology ex_store ''T'') = Ok [ann1, ann2]" by code_simp
  from lookup_absent_id [OF h1 h2, of 4] h1 h2 e show ?thesis by simp
qed

section \<open>The default reference\<close>

lemma GetEnrichedTerms_reference_of:
  assumes "reference_of st a = reference_of st b"
  shows "GetEnrichedTerms pop pv ek n ont st genes0 a ev0 aspect
           = GetEnrichedTerms pop pv ek n ont st genes0 b ev0 aspect"
  using assms unfolding GetEnrichedTerms_def reference_of_def [symmetric] by simp

lemma reference_of_default:
  assumes "reference0 = None \<or> reference0 = Some []"
  shows "reference_of st reference0 = geneNames st"
  using assms by (auto simp: reference_of_def)

lemma reference_of_geneNames:
  "distinct (geneNames st) \<Longrightarrow> reference_of st (Some (geneNames st)) = geneNames st"
  by (simp add: reference_of_def distinct_remdups_id)

lemma enrich_term_entries:
  assumes "enrich_term pv m ont rgd genes reference refAnn rs t = (Ok r1, st1)"
    and "\<forall>e\<in>set (fst rs). tested_against pv (length reference) (length genes) e"
  shows "\<forall>e\<in>set r1. tested_against pv (length reference) (length genes) e"
proof -
  obtain r st0 where 1: "GetAllAnnotations m ont (snd rs) t = (r, st0)"
    by (cases "GetAllAnnotations m ont (snd rs) t")
  show ?thesis
  proof (cases r)
    case (Err e)
    then show ?thesis using assms(1) 1 by (simp add: enrich_term_def)
  next
    case (Ok all0)
    from assms(1) 1 Ok obtain v where r1: "r1 = dict_set t v (fst rs)"
      and v: "tested_against pv (length reference) (length genes) (t, v)"
      by (auto simp: enrich_term_def Let_def tested_against_def split: res.splits)
    show ?thesis using set_dict_set [of t v "fst rs"] assms(2) v unfolding r1 by blast
  qed
qed

lemma enrich_loop_entries:
  assumes "enrich_loop (enrich_term pv m ont rgd genes reference refAnn) rs ts = (Ok res, st')"
    and "\<forall>e\<in>set (fst rs). tested_against pv (length reference) (length genes) e"
  shows "\<forall>e\<in>set res. tested_against pv (length reference) (length genes) e"
  using assms
proof (induction ts arbitrary: rs)
  case Nil
  then show ?case by simp
next
  case (Cons t ts)
  obtain r st1 where 1: "enrich_term pv m ont rgd genes reference refAnn rs t = (r, st1)"
    by (cases "enrich_term pv m ont rgd genes reference refAnn rs t")
  show ?case
  proof (cases r)
    case (Err e)
    then show ?thesis using Cons.prems(1) 1 by simp
  next
    case (Ok r1)
    have 2: "enrich_loop (enrich_term pv m ont rgd genes reference refAnn) (r1, st1) ts = (Ok res, st')"
      using Cons.prems(1) 1 Ok by simp
    have "\<forall>e\<in>set r1. tested_against pv (length reference) (length genes) e"
      using enrich_term_entries [of pv m ont rgd genes reference refAnn rs t r1 st1] 1 Ok Cons.prems(2)
      by simp
    then show ?thesis using Cons.IH [OF 2] by simp
  qed
qed

text \<open>
  Claim C10. Called with no reference (\<open>None\<close>) or with an empty one, \<open>GetEnrichedTerms\<close>
  takes the gene names of the store as the reference population: the call is the call
  with \<open>geneNames\<close> passed as the reference (result and store alike), and the p-value of
  every term in the result comes from \<open>p_value\<close> called with \<open>N = |geneNames|\<close>, with the
  count of the entry as \<open>K\<close> and the number of resolved query genes as \<open>n\<close>. \<open>geneNames\<close>
  is a set, so its list has no duplicates.
\<close>

theorem GetEnrichedTerms_default_reference:
  assumes "reference0 = None \<or> reference0 = Some []"
    and "distinct (geneNames st)"
  shows "GetEnrichedTerms pop pv ek n ont st genes0 reference0 ev0 aspect
           = GetEnrichedTerms pop pv ek n ont st genes0 (Some (geneNames st)) ev0 aspect \<and>
         (\<forall>res st' t names p count.
            GetEnrichedTerms pop pv ek n ont st genes0 reference0 ev0 aspect = Some (Ok res, st')
              \<and> (t, names, p, count) \<in> set res
            \<longrightarrow> (\<exists>k. p = pv k (length (geneNames st)) count
                            (length (GetGeneNamesTranslator st genes0))))"
proof (intro conjI allI impI)
  show "GetEnrichedTerms pop pv ek n ont st genes0 reference0 ev0 aspect
           = GetEnrichedTerms pop pv ek n ont st genes0 (Some (geneNames st)) ev0 aspect"
    by (rule GetEnrichedTerms_reference_of)
       (simp add: reference_of_default [OF assms(1)] reference_of_geneNames [OF assms(2)])
next
  fix res st' t names p count
  assume a: "GetEnrichedTerms pop pv ek n ont st genes0 reference0 ev0 aspect = Some (Ok res, st')
              \<and> (t, names, p, count) \<in> set res"
  then have run: "GetEnrichedTerms pop pv ek n ont st genes0 reference0 ev0 aspect = Some (Ok res, st')"
    and mem: "(t, names, p, count) \<in> set res" by simp_all
  from run have "\<forall>e\<in>set res. tested_against pv (length (geneNames st))
                    (length (map fst (GetGeneNamesTranslator st genes0))) e"
  proof (cases rule: GetEnrichedTerms_cases)
    case (err e g)
    then show ?thesis by simp
  next
    case (run ts g refAnn)
    show ?thesis
      using enrich_loop_entries [OF run [symmetric]]
      by (simp add: reference_of_default [OF assms(1)])
  qed
  with mem show "\<exists>k. p = pv k (length (geneNames st)) count (length (GetGeneNamesTranslator st genes0))"
    by (auto simp: tested_against_def)
qed

lemma GetEnrichedTerms_no_reference:
  "(case GetEnrichedTerms hd record_args [''IDA''] 5 ex_ontology ex_store [''g1''] None None ''P'' of
      None \<Rightarrow> False
    | Some (r, st) \<Rightarrow> r = Ok [(''T'', [''g1''], (1, 2, 2, 1), 2)])"
  by code_simp

theorem GetEnrichedTerms_default_reference_witness:
  "distinct (geneNames ex_store) \<and>
   GetEnrichedTerms hd record_args [''IDA''] 5 ex_ontology ex_store [''g1''] None None ''P''
     = GetEnrichedTerms hd record_args [''IDA''] 5 ex_ontology ex_store [''g1'']
         (Some (geneNames ex_store)) None ''P'' \<and>
   (\<exists>st'. GetEnrichedTerms hd record_args [''IDA''] 5 ex_ontology ex_store [''g1''] None None ''P''
            = Some (Ok [(''T'', [''g1''], (1, 2, 2, 1), 2)], st')) \<and>
   (\<exists>k. (1, 2, 2, 1) = record_args k (length (geneNames ex_store)) 2
                          (length (GetGeneNamesTranslator ex_store [''g1''])))"
proof -
  have d: "distinct (geneNames ex_store)" by (simp add: ex_store_def)
  have r: "(None :: string list option) = None \<or> (None :: string list option) = Some []" by simp
  from GetEnrichedTerms_no_reference obtain st' where
    run: "GetEnrichedTerms hd record_args [''IDA''] 5 ex_ontology ex_store [''g1''] None None ''P''
            = Some (Ok [(''T'', [''g1''], (1, 2, 2, 1), 2)], st')"
    by (auto split: option.splits)
  note t = GetEnrichedTerms_default_reference [OF r d, of hd record_args "[''IDA'']" 5 ex_ontology
      "[''g1'']" None "''P''"]
  from t have 1: "GetEnrichedTerms hd record_args [''IDA''] 5 ex_ontology ex_store [''g1''] None None ''P''
     = GetEnrichedTerms hd record_args [''IDA''] 5 ex_ontology ex_store [''g1'']
         (Some (geneNames ex_store)) None ''P''" by (rule conjunct1)
  from t run have 2: "\<exists>k. (1, 2, 2, 1) = record_args k (length (geneNames ex_store)) 2
                          (length (GetGeneNamesTranslator ex_store [''g1'']))"
    by (elim conjE allE [of _ "[(''T'', [''g1''], (1, 2, 2, 1), 2)]"] allE [of _ st']
        allE [of _ "''T''"] allE [of _ "[''g1'']"] allE [of _ "(1, 2, 2, 1)"] allE [of _ 2]) simp
  from d 1 run 2 show ?thesis by blast
qed

section \<open>Empty inputs of an enrichment\<close>





section \<open>The cache while only GetAllAnnotations writes it\<close>

text \<open>
  The counterpart of the example of claim C1. \<open>_CollectAnnotations\<close> and
  \<open>GetAllAnnotations\<close> keep a cache that covers the direct annotations, and on such a cache
  the set \<open>GetAllAnnotations(t)\<close> returns contains \<open>termAnnotations[t]\<close>. The cache stops
  covering them when \<open>GetEnrichedTerms\<close> intersects an entry in place.
\<close>

lemma cache_covers_empty: "allAnnotations st = Map.empty \<Longrightarrow> cache_covers st"
  by (simp add: cache_covers_def)

lemma cache_covers_touch:
  "cache_covers st \<Longrightarrow> cache_covers (st\<lparr>termAnnotations := dd_touch (termAnnotations st) i\<rparr>)"
  by (simp add: cache_covers_def dd_get_touch)

lemma collect_children_keeps_acc:
  "collect_children rec st acc cs = (Ok chunks, st') \<Longrightarrow> set acc \<subseteq> set chunks"
proof (induction cs arbitrary: st acc)
  case Nil
  then show ?case by simp
next
  case (Cons c cs)
  obtain typeId child where c: "c = (typeId, child)" by (cases c)
  obtain r st1 where 1: "rec st child = (r, st1)" by (cases "rec st child")
  show ?case
  proof (cases r)
    case (Err e)
    then show ?thesis using Cons.prems 1 by (simp add: c)
  next
    case (Ok entry)
    show ?thesis
    proof (cases entry)
      case (RawList aa)
      then have "collect_children rec st1 (acc @ aa) cs = (Ok chunks, st')"
        using Cons.prems 1 Ok by (simp add: c)
      from Cons.IH [OF this] show ?thesis by simp
    next
      case (Reduced s)
      then have "collect_children rec st1 (acc @ [SetOf child]) cs = (Ok chunks, st')"
        using Cons.prems 1 Ok by (simp add: c)
      from Cons.IH [OF this] show ?thesis by simp
    qed
  qed
qed

lemma collect_children_covers:
  assumes "\<And>st c. cache_covers st \<Longrightarrow> cache_covers (snd (rec st c))"
  shows "cache_covers st \<Longrightarrow> cache_covers (snd (collect_children rec st acc cs))"
proof (induction cs arbitrary: st acc)
  case Nil
  then show ?case by simp
next
  case (Cons c cs)
  obtain typeId child where c: "c = (typeId, child)" by (cases c)
  obtain r st1 where 1: "rec st child = (r, st1)" by (cases "rec st child")
  have "cache_covers st1" using assms [OF Cons.prems, of child] 1 by simp
  then show ?case using 1 Cons.IH
    by (simp add: c split: res.splits cache_entry.splits)
qed

lemma CollectAnnotations_covers:
  "cache_covers st \<Longrightarrow> cache_covers (snd (CollectAnnotations n ont st i))"
proof (induction n arbitrary: st i)
  case 0
  then show ?case by simp
next
  case (Suc n)
  let ?s = "st\<lparr>termAnnotations := dd_touch (termAnnotations st) i\<rparr>"
  have s: "cache_covers ?s" using Suc.prems by (rule cache_covers_touch)
  show ?case
  proof (cases "allAnnotations st i")
    case (Some e)
    then show ?thesis using Suc.prems by simp
  next
    case None
    show ?thesis
    proof (cases "Ontology_getitem ont i")
      case (Err e)
      then show ?thesis using None s by (simp add: Let_def)
    next
      case (Ok t)
      obtain r st2 where 1: "collect_children (CollectAnnotations n ont) ?s [ListOf i] (relatedTo t) = (r, st2)"
        by (cases "collect_children (CollectAnnotations n ont) ?s [ListOf i] (relatedTo t)")
      have c2: "cache_covers st2"
        using collect_children_covers [of "CollectAnnotations n ont", OF Suc.IH s, of "[ListOf i]" "relatedTo t"] 1
        by simp
      show ?thesis
      proof (cases r)
        case (Err e)
        then show ?thesis using None Ok 1 c2 by (simp add: Let_def)
      next
        case (Ok chunks)
        then have "ListOf i \<in> set chunks" using collect_children_keeps_acc 1 by fastforce
        then show ?thesis using None \<open>Ontology_getitem ont i = Ok t\<close> Ok 1 c2
          by (simp add: Let_def cache_covers_def)
      qed
    qed
  qed
qed

lemma set_foldl_set_update:
  "set (foldl (\<lambda>acc ch. set_update acc (f ch)) a chunks) = set a \<union> (\<Union>ch\<in>set chunks. set (f ch))"
  by (induction chunks arbitrary: a) (auto simp: set_set_update)

lemma GetAllAnnotations_superset:
  assumes "cache_covers st"
    and "GetAllAnnotations n ont st i = (Ok s, st')"
  shows "set (dd_get (termAnnotations st') i) \<subseteq> set s \<and> cache_covers st'"
proof (cases rule: GetAllAnnotations_cases [of st i n ont])
  case (hit s0)
  then have "s0 = s" "st' = st" using assms(2) by simp_all
  moreover have "set (dd_get (termAnnotations st) i) \<subseteq> set s0"
    using assms(1) hit(1) by (simp add: cache_covers_def)
  ultimately show ?thesis using assms(1) by simp
next
  case (err e st1)
  then show ?thesis using assms(2) by simp
next
  case (bad s0 st1)
  then show ?thesis using assms(2) by simp
next
  case (new chunks st1)
  let ?r = "foldl (\<lambda>acc ch. set_update acc (chunk_items st1 ch)) [] chunks"
  have c1: "cache_covers st1" using CollectAnnotations_covers [OF assms(1), of n ont i] new(1) by simp
  have "allAnnotations st1 i = Some (RawList chunks)" using new(1) by (rule CollectAnnotations_Ok_cached)
  then have mem: "ListOf i \<in> set chunks"
    using c1 by (simp add: cache_covers_def)
  have s: "s = ?r" and st': "st' = st1\<lparr>allAnnotations := (allAnnotations st1)(i \<mapsto> Reduced ?r)\<rparr>"
    using new(2) assms(2) by simp_all
  have sub: "set (dd_get (termAnnotations st1) i) \<subseteq> set ?r"
    using mem by (auto simp: set_foldl_set_update chunk_items_def intro!: bexI [of _ "ListOf i"])
  have "cache_covers st'"
    using c1 sub by (auto simp: cache_covers_def st')
  then show ?thesis using sub by (simp add: s st')
qed

lemma collect_children_termAnnotations:
  assumes "\<And>st c t. dd_get (termAnnotations (snd (rec st c))) t = dd_get (termAnnotations st) t"
  shows "dd_get (termAnnotations (snd (collect_children rec st acc cs))) t = dd_get (termAnnotations st) t"
proof (induction cs arbitrary: st acc)
  case Nil
  show ?case by simp
next
  case (Cons c cs)
  obtain typeId child where c: "c = (typeId, child)" by (cases c)
  obtain r st1 where 1: "rec st child = (r, st1)" by (cases "rec st child")
  have "dd_get (termAnnotations st1) t = dd_get (termAnnotations st) t"
    using assms [of st child t] 1 by simp
  then show ?case using 1 Cons.IH
    by (simp add: c split: res.splits cache_entry.splits)
qed

lemma CollectAnnotations_termAnnotations:
  "dd_get (termAnnotations (snd (CollectAnnotations n ont st i))) t = dd_get (termAnnotations st) t"
proof (induction n arbitrary: st i t)
  case 0
  show ?case by simp
next
  case (Suc n)
  let ?s = "st\<lparr>termAnnotations := dd_touch (termAnnotations st) i\<rparr>"
  show ?case
  proof (cases "allAnnotations st i")
    case (Some e)
    then show ?thesis by simp
  next
    case None
    show ?thesis
    proof (cases "Ontology_getitem ont i")
      case (Err e)
      then show ?thesis using None by (simp add: Let_def dd_get_touch)
    next
      case (Ok obj)
      obtain r st2 where 1: "collect_children (CollectAnnotations n ont) ?s [ListOf i] (relatedTo obj) = (r, st2)"
        by (cases "collect_children (CollectAnnotations n ont) ?s [ListOf i] (relatedTo obj)")
      have "dd_get (termAnnotations st2) t = dd_get (termAnnotations ?s) t"
        using collect_children_termAnnotations [where rec = "CollectAnnotations n ont" and t = t
            and st = ?s and acc = "[ListOf i]" and cs = "relatedTo obj", OF Suc.IH] 1 by simp
      then show ?thesis using None Ok 1 by (cases r) (simp_all add: Let_def dd_get_touch)
    qed
  qed
qed

lemma GetAllAnnotations_termAnnotations:
  "dd_get (termAnnotations (snd (GetAllAnnotations n ont st i))) t = dd_get (termAnnotations st) t"
  using CollectAnnotations_termAnnotations [of n ont st i t]
  by (cases rule: GetAllAnnotations_cases [of st i n ont]) simp_all

end
